theory Spec2Isabelle
  imports Complex_Main "HOL-Library.Sublist" "HOL-Library.Multiset"
    "HOL-Library.Char_ord" "HOL-Library.List_Lexorder"
begin

section \<open>Python values shared by the models\<close>

text \<open>
  Exceptions of the source become values. A function that can raise returns
  \<open>py_error + 'a\<close>, with \<open>Inl\<close> for the exception.
\<close>

datatype py_error = IndexError | KeyError | RuntimeError | FieldError

text \<open>
  \<open>xs[i]\<close> of Python: a negative index counts from the end, an index out of range
  raises \<open>IndexError\<close>.
\<close>

definition py_index :: "'a list \<Rightarrow> int \<Rightarrow> py_error + 'a" where
  "py_index xs i =
     (if 0 \<le> i \<and> i < int (length xs) then Inr (xs ! nat i)
      else if i < 0 \<and> - int (length xs) \<le> i then Inr (xs ! nat (int (length xs) + i))
      else Inl IndexError)"

text \<open>\<open>int(x)\<close> of Python on a float: truncation towards zero.\<close>

definition py_int :: "real \<Rightarrow> int" where
  "py_int x = (if 0 \<le> x then \<lfloor>x\<rfloor> else \<lceil>x\<rceil>)"

section \<open>silk/views/summary.py: \<open>_percentile\<close>\<close>

text \<open>
  The source computes in binary floating point; the model computes in the reals, so
  rounding is not part of it.
\<close>

definition percentile :: "real list \<Rightarrow> real \<Rightarrow> py_error + real" where
  "percentile sorted_data p =
     (let n = int (length sorted_data) in
      if n = 0 then Inr 0
      else
        let idx = (p / 100) * real_of_int (n - 1);
            lo = py_int idx;
            hi = lo + 1;
            frac = idx - real_of_int lo
        in if hi \<ge> n then py_index sorted_data (- 1)
           else (case py_index sorted_data lo of
                   Inl e \<Rightarrow> Inl e
                 | Inr a \<Rightarrow>
                     (case py_index sorted_data hi of
                        Inl e \<Rightarrow> Inl e
                      | Inr b \<Rightarrow> Inr (a * (1 - frac) + b * frac))))"

text \<open>
  The linear-interpolation definition in the words of the specification (section 4.3),
  to be compared with \<open>percentile\<close>.
\<close>

definition percentile_spec :: "real list \<Rightarrow> real \<Rightarrow> real" where
  "percentile_spec sample p =
     (let n = length sample;
          idx = p / 100 * (real n - 1);
          lo = \<lfloor>idx\<rfloor>;
          hi = lo + 1;
          frac = idx - real_of_int lo
      in if n = 0 then 0
         else if hi \<ge> int n then last sample
         else sample ! nat lo * (1 - frac) + sample ! nat hi * frac)"

section \<open>silk/utils/n\_plus\_one.py: \<open>fingerprint_query\<close>\<close>

text \<open>
  A text is a list of characters, each read as the code point of the same number
  (U+0000 to U+00FF). The character classes are those of Python's \<open>re\<close> on
  \<open>str\<close> patterns and of \<open>str.strip\<close> and \<open>str.lower\<close> on that range.
\<close>

definition quote :: char where
  "quote = CHR 0x27"

definition placeholder :: char where
  "placeholder = CHR ''?''"

text \<open>\<open>\d\<close>: the decimal digits.\<close>

definition is_digit :: "char \<Rightarrow> bool" where
  "is_digit c = (let n = (of_char c :: nat) in 48 \<le> n \<and> n \<le> 57)"

text \<open>\<open>\s\<close> and the characters \<open>strip\<close> removes: tab to carriage return, the four
  separators 0x1C to 0x1F, the space, NEL and the no-break space.\<close>

definition is_space :: "char \<Rightarrow> bool" where
  "is_space c =
     (let n = (of_char c :: nat)
      in (9 \<le> n \<and> n \<le> 13) \<or> (28 \<le> n \<and> n \<le> 32) \<or> n = 133 \<or> n = 160)"

text \<open>\<open>\w\<close>, which decides \<open>\b\<close>: the alphanumeric characters and the underscore.\<close>

definition is_word :: "char \<Rightarrow> bool" where
  "is_word c =
     (let n = (of_char c :: nat)
      in (48 \<le> n \<and> n \<le> 57) \<or> (65 \<le> n \<and> n \<le> 90) \<or> n = 95 \<or> (97 \<le> n \<and> n \<le> 122)
         \<or> n = 170 \<or> n = 178 \<or> n = 179 \<or> n = 181 \<or> n = 185 \<or> n = 186
         \<or> (188 \<le> n \<and> n \<le> 190) \<or> (192 \<le> n \<and> n \<le> 214) \<or> (216 \<le> n \<and> n \<le> 246)
         \<or> 248 \<le> n)"

text \<open>\<open>str.lower\<close> on one character.\<close>

definition lower_char :: "char \<Rightarrow> char" where
  "lower_char c =
     (let n = (of_char c :: nat)
      in if (65 \<le> n \<and> n \<le> 90) \<or> (192 \<le> n \<and> n \<le> 214) \<or> (216 \<le> n \<and> n \<le> 222)
         then char_of (n + 32) else c)"

definition lower :: "string \<Rightarrow> string" where
  "lower s = map lower_char s"

definition strip :: "string \<Rightarrow> string" where
  "strip s = rev (dropWhile is_space (rev (dropWhile is_space s)))"

text \<open>
  \<open>_RE_STRINGS.sub('?', sql)\<close> with the pattern \<open>'[^']*'\<close>: the scan goes left to
  right; at a quote that has a later quote, the text up to the nearest one is one match
  and the scan goes on behind it; any other character is copied.
\<close>

function sub_strings :: "string \<Rightarrow> string" where
  "sub_strings [] = []"
| "sub_strings (c # cs) =
     (if c = quote then
        (case dropWhile (\<lambda>x. x \<noteq> quote) cs of
           [] \<Rightarrow> c # sub_strings cs
         | _ # rest \<Rightarrow> placeholder # sub_strings rest)
      else c # sub_strings cs)"
  by pat_completeness auto
termination
proof (relation "measure length")
  fix c :: char and cs x21 x22
  assume "dropWhile (\<lambda>x. x \<noteq> quote) cs = x21 # x22"
  then have "length (x21 # x22) \<le> length cs"
    using length_dropWhile_le [of "\<lambda>x. x \<noteq> quote" cs] by simp
  then show "(x22, c # cs) \<in> measure length" by simp
qed simp_all

text \<open>
  \<open>_RE_NUMBERS.sub('?', s)\<close> with the pattern \<open>\b\d+\b\<close>. The flag says whether the
  character before the position is a word character (false at the start of the text).
  A match starts at a digit behind a boundary, takes the whole run of digits and needs a
  boundary behind the run; a shorter run never ends at a boundary, so backtracking
  finds nothing.
\<close>

function sub_numbers_from :: "bool \<Rightarrow> string \<Rightarrow> string" where
  "sub_numbers_from prev_word [] = []"
| "sub_numbers_from prev_word (c # cs) =
     (if is_digit c \<and> \<not> prev_word then
        (let rest = dropWhile is_digit cs
         in if (case rest of [] \<Rightarrow> True | d # _ \<Rightarrow> \<not> is_word d)
            then placeholder # sub_numbers_from True rest
            else c # sub_numbers_from (is_word c) cs)
      else c # sub_numbers_from (is_word c) cs)"
  by pat_completeness auto
termination
proof (relation "measure (\<lambda>(b, s). length s)")
  fix prev_word :: bool and c :: char and cs x
  assume "x = dropWhile is_digit cs"
  then have "length x \<le> length cs"
    using length_dropWhile_le [of is_digit cs] by simp
  then show "((True, x), prev_word, c # cs) \<in> measure (\<lambda>(b, s). length s)" by simp
qed simp_all

definition sub_numbers :: "string \<Rightarrow> string" where
  "sub_numbers s = sub_numbers_from False s"

text \<open>\<open>_RE_WHITESPACE.sub(' ', s)\<close> with the pattern \<open>\s+\<close>.\<close>

function sub_whitespace :: "string \<Rightarrow> string" where
  "sub_whitespace [] = []"
| "sub_whitespace (c # cs) =
     (if is_space c then CHR '' '' # sub_whitespace (dropWhile is_space cs)
      else c # sub_whitespace cs)"
  by pat_completeness auto
termination
proof (relation "measure length")
  fix c :: char and cs
  have "length (dropWhile is_space cs) \<le> length cs"
    by (rule length_dropWhile_le)
  then show "(dropWhile is_space cs, c # cs) \<in> measure length" by simp
qed simp_all

definition fingerprint_query :: "string \<Rightarrow> string" where
  "fingerprint_query sql = lower (strip (sub_whitespace (sub_numbers (sub_strings sql))))"

section \<open>silk/utils/n\_plus\_one.py: \<open>detect_n_plus_one\<close>\<close>

text \<open>A captured SQL query: the attributes the detector reads.\<close>

record sql_query =
  pk :: nat
  query :: string
  query_time_taken :: "real option"

record n_plus_one_group =
  fingerprint :: string
  queries :: "sql_query list"
  group_count :: nat
  representative :: sql_query

text \<open>\<open>NPlusOneGroup.__init__\<close>: \<open>queries[0]\<close> raises on an empty list.\<close>

definition NPlusOneGroup :: "string \<Rightarrow> sql_query list \<Rightarrow> py_error + n_plus_one_group" where
  "NPlusOneGroup fp qs =
     (case py_index qs 0 of
        Inl e \<Rightarrow> Inl e
      | Inr r \<Rightarrow>
          Inr \<lparr>fingerprint = fp, queries = qs, group_count = length qs, representative = r\<rparr>)"

record n_plus_one_result =
  groups :: "n_plus_one_group list"
  flagged_query_ids :: "nat set"
  has_n_plus_one :: bool

definition NPlusOneResult :: "n_plus_one_group list \<Rightarrow> n_plus_one_result" where
  "NPlusOneResult gs =
     \<lparr>groups = gs,
      flagged_query_ids = set (concat (map (\<lambda>g. map pk (queries g)) gs)),
      has_n_plus_one = (gs \<noteq> [])\<rparr>"

text \<open>
  The dict \<open>buckets\<close> keeps its keys in the order of their first insertion, so it is an
  association list. \<open>buckets.setdefault(k, []).append(v)\<close>:
\<close>

fun setdefault_append :: "('k \<times> 'v list) list \<Rightarrow> 'k \<Rightarrow> 'v \<Rightarrow> ('k \<times> 'v list) list" where
  "setdefault_append [] k v = [(k, [v])]"
| "setdefault_append ((k', vs) # rest) k v =
     (if k' = k then (k', vs @ [v]) # rest else (k', vs) # setdefault_append rest k v)"

text \<open>The loop over \<open>queries\<close>, from a given dict.\<close>

fun fill_buckets :: "(string \<times> sql_query list) list \<Rightarrow> sql_query list
    \<Rightarrow> (string \<times> sql_query list) list" where
  "fill_buckets buckets [] = buckets"
| "fill_buckets buckets (q # qs) =
     fill_buckets (setdefault_append buckets (fingerprint_query (query q)) q) qs"

text \<open>The list comprehension that builds \<open>flagged\<close>; the threshold is any integer.\<close>

fun flag_buckets :: "int \<Rightarrow> (string \<times> sql_query list) list
    \<Rightarrow> py_error + n_plus_one_group list" where
  "flag_buckets threshold [] = Inr []"
| "flag_buckets threshold ((fp, qs) # rest) =
     (if int (length qs) \<ge> threshold then
        (case NPlusOneGroup fp qs of
           Inl e \<Rightarrow> Inl e
         | Inr g \<Rightarrow>
             (case flag_buckets threshold rest of
                Inl e \<Rightarrow> Inl e
              | Inr gs \<Rightarrow> Inr (g # gs)))
      else flag_buckets threshold rest)"

text \<open>
  \<open>flagged.sort(key=lambda g: g.count, reverse=True)\<close>: Python's sort is stable, also
  with \<open>reverse=True\<close>, so it is the stable sort on the negated key.
\<close>

definition sort_by_count_desc :: "n_plus_one_group list \<Rightarrow> n_plus_one_group list" where
  "sort_by_count_desc gs = sort_key (\<lambda>g. - int (group_count g)) gs"

definition detect_n_plus_one :: "sql_query list \<Rightarrow> int \<Rightarrow> py_error + n_plus_one_result" where
  "detect_n_plus_one qs threshold =
     (case flag_buckets threshold (fill_buckets [] qs) of
        Inl e \<Rightarrow> Inl e
      | Inr flagged \<Rightarrow> Inr (NPlusOneResult (sort_by_count_desc flagged)))"

text \<open>
  Words of the specification (section 4.2), to compare with: the fingerprints of a list
  of queries in the order of their first encounter, and the queries of one fingerprint
  in input order.
\<close>

fun first_seen :: "'a list \<Rightarrow> 'a list" where
  "first_seen [] = []"
| "first_seen (x # xs) = x # filter (\<lambda>y. y \<noteq> x) (first_seen xs)"

definition members :: "sql_query list \<Rightarrow> string \<Rightarrow> sql_query list" where
  "members qs fp = filter (\<lambda>q. fingerprint_query (query q) = fp) qs"

section \<open>The stored records\<close>

text \<open>
  The rows of the models \<open>Request\<close> and \<open>Response\<close> of \<open>silk.models\<close>, with the
  fields the views read. A request carries its related SQL queries.
\<close>

record request =
  request_pk :: nat
  path :: string
  view_name :: string
  http_method :: string
  start_time :: int
  time_taken :: "real option"
  num_sql_queries :: int
  request_queries :: "sql_query list"

record response =
  response_pk :: nat
  request_id :: nat
  status_code :: "int option"

text \<open>
  \<open>models.Request.objects.filter\<close> on the unpacked filters: each filter is a condition on a row, and
  the rows that meet all of them are kept, in their order.
\<close>

definition objects_filter :: "('r \<Rightarrow> bool) list \<Rightarrow> 'r list \<Rightarrow> 'r list" where
  "objects_filter filters rows = filter (\<lambda>r. list_all (\<lambda>f. f r) filters) rows"

section \<open>silk/views/summary.py: \<open>_response_time_histogram\<close>\<close>

record hist_bucket =
  label :: string
  bucket_max :: "real option"
  bucket_count :: nat

definition histogram_buckets :: "hist_bucket list" where
  "histogram_buckets =
     [\<lparr>label = ''<50ms'', bucket_max = Some 50, bucket_count = 0\<rparr>,
      \<lparr>label = ''50-100ms'', bucket_max = Some 100, bucket_count = 0\<rparr>,
      \<lparr>label = ''100-200ms'', bucket_max = Some 200, bucket_count = 0\<rparr>,
      \<lparr>label = ''200-500ms'', bucket_max = Some 500, bucket_count = 0\<rparr>,
      \<lparr>label = ''500ms-1s'', bucket_max = Some 1000, bucket_count = 0\<rparr>,
      \<lparr>label = ''>1s'', bucket_max = None, bucket_count = 0\<rparr>]"

text \<open>The inner loop \<open>for b in buckets\<close> with its \<open>break\<close>.\<close>

fun count_time :: "real \<Rightarrow> hist_bucket list \<Rightarrow> hist_bucket list" where
  "count_time t [] = []"
| "count_time t (b # bs) =
     (if bucket_max b = None \<or> t < the (bucket_max b)
      then b\<lparr>bucket_count := bucket_count b + 1\<rparr> # bs
      else b # count_time t bs)"

text \<open>The outer loop \<open>for t in times\<close>.\<close>

fun count_times :: "real list \<Rightarrow> hist_bucket list \<Rightarrow> hist_bucket list" where
  "count_times [] buckets = buckets"
| "count_times (t # ts) buckets = count_times ts (count_time t buckets)"

text \<open>
  \<open>.filter(time_taken__isnull=False, time_taken__gte=0).values_list('time_taken',
  flat=True)\<close>.
\<close>

definition considered_times :: "request list \<Rightarrow> real list" where
  "considered_times rows =
     concat (map (\<lambda>r. case time_taken r of
                         None \<Rightarrow> []
                       | Some t \<Rightarrow> if t \<ge> 0 then [t] else []) rows)"

definition response_time_histogram :: "request list \<Rightarrow> (request \<Rightarrow> bool) list
    \<Rightarrow> (string \<times> nat) list" where
  "response_time_histogram all_requests filters =
     (let times = considered_times (objects_filter filters all_requests);
          buckets = count_times times histogram_buckets
      in map (\<lambda>b. (label b, bucket_count b)) buckets)"

section \<open>silk/views/summary.py: \<open>_status_distribution\<close>\<close>

text \<open>
  \<open>.filter(request_id__in=request_pks, status_code__isnull=False).values('status_code')
  .annotate(count=Count('id'))\<close>: one row for each status code that occurs, with the
  number of responses that have it.
\<close>

definition status_codes_of :: "nat list \<Rightarrow> response list \<Rightarrow> int list" where
  "status_codes_of request_pks responses =
     concat (map (\<lambda>r. case status_code r of
                         None \<Rightarrow> []
                       | Some sc \<Rightarrow> if request_id r \<in> set request_pks then [sc] else [])
                 responses)"

definition status_rows :: "nat list \<Rightarrow> response list \<Rightarrow> (int \<times> nat) list" where
  "status_rows request_pks responses =
     (let scs = status_codes_of request_pks responses
      in map (\<lambda>sc. (sc, length (filter (\<lambda>x. x = sc) scs))) (remdups scs))"

text \<open>\<open>buckets[k] += c\<close> on a dict: a missing key raises.\<close>

definition dict_add :: "(string \<rightharpoonup> nat) \<Rightarrow> string \<Rightarrow> nat \<Rightarrow> py_error + (string \<rightharpoonup> nat)" where
  "dict_add d k c = (case d k of None \<Rightarrow> Inl KeyError | Some v \<Rightarrow> Inr (d(k \<mapsto> v + c)))"

fun add_status_rows :: "(int \<times> nat) list \<Rightarrow> (string \<rightharpoonup> nat) \<Rightarrow> py_error + (string \<rightharpoonup> nat)" where
  "add_status_rows [] buckets = Inr buckets"
| "add_status_rows ((sc, n) # rows) buckets =
     (case (if 200 \<le> sc \<and> sc < 300 then dict_add buckets ''2xx'' n
            else if 300 \<le> sc \<and> sc < 400 then dict_add buckets ''3xx'' n
            else if 400 \<le> sc \<and> sc < 500 then dict_add buckets ''4xx'' n
            else if sc \<ge> 500 then dict_add buckets ''5xx'' n
            else Inr buckets) of
        Inl e \<Rightarrow> Inl e
      | Inr buckets' \<Rightarrow> add_status_rows rows buckets')"

definition zero_buckets :: "string \<rightharpoonup> nat" where
  "zero_buckets = [''2xx'' \<mapsto> 0, ''3xx'' \<mapsto> 0, ''4xx'' \<mapsto> 0, ''5xx'' \<mapsto> 0]"

definition status_distribution :: "request list \<Rightarrow> response list \<Rightarrow> (request \<Rightarrow> bool) list
    \<Rightarrow> py_error + (string \<rightharpoonup> nat)" where
  "status_distribution all_requests all_responses filters =
     (let request_pks = map request_pk (objects_filter filters all_requests)
      in if request_pks = [] then Inr zero_buckets
         else add_status_rows (status_rows request_pks all_responses) zero_buckets)"

text \<open>The number of counted responses whose status code is in a class.\<close>

definition status_count :: "request list \<Rightarrow> response list \<Rightarrow> (request \<Rightarrow> bool) list
    \<Rightarrow> (int \<Rightarrow> bool) \<Rightarrow> nat" where
  "status_count all_requests all_responses filters cls =
     length (filter cls
       (status_codes_of (map request_pk (objects_filter filters all_requests)) all_responses))"

section \<open>silk/views/requests.py: the sort pipeline\<close>

text \<open>
  A queryset over \<open>Request\<close>: its rows, and whether the annotation \<open>db_time\<close> has been
  added. The methods of Django's querysets are modelled as far as the module calls them.
\<close>

record query_set =
  rows :: "request list"
  has_db_time :: bool

definition objects_all :: "request list \<Rightarrow> query_set" where
  "objects_all all_requests = \<lparr>rows = all_requests, has_db_time = False\<rparr>"

text \<open>\<open>Sum('queries__time_taken')\<close>: the sum of the values that are not null, null when
  there is none.\<close>

definition db_time :: "request \<Rightarrow> real option" where
  "db_time r =
     (let ts = concat (map (\<lambda>q. case query_time_taken q of None \<Rightarrow> [] | Some t \<Rightarrow> [t])
                           (request_queries r))
      in if ts = [] then None else Some (sum_list ts))"

text \<open>A comparison \<open>field__gte=0\<close> is false on null.\<close>

definition gte_0 :: "real option \<Rightarrow> bool" where
  "gte_0 v = (case v of None \<Rightarrow> False | Some t \<Rightarrow> t \<ge> 0)"

text \<open>\<open>lambda qs: qs.filter(time_taken__gte=0)\<close>\<close>

definition filter_time_taken :: "query_set \<Rightarrow> query_set" where
  "filter_time_taken qs = qs\<lparr>rows := filter (\<lambda>r. gte_0 (time_taken r)) (rows qs)\<rparr>"

text \<open>\<open>lambda qs: qs.annotate(db_time=Sum('queries__time_taken')).filter(db_time__gte=0)\<close>\<close>

definition filter_db_time :: "query_set \<Rightarrow> query_set" where
  "filter_db_time qs =
     qs\<lparr>rows := filter (\<lambda>r. gte_0 (db_time r)) (rows qs), has_db_time := True\<rparr>"

record sort_option =
  option_label :: string
  additional_query_filter :: "(query_set \<Rightarrow> query_set) option"

definition SORT_OPTIONS :: "(string \<times> sort_option) list" where
  "SORT_OPTIONS =
     [(''start_time'', \<lparr>option_label = ''Recent'', additional_query_filter = None\<rparr>),
      (''path'', \<lparr>option_label = ''Path'', additional_query_filter = None\<rparr>),
      (''num_sql_queries'', \<lparr>option_label = ''Num. Queries'', additional_query_filter = None\<rparr>),
      (''time_taken'',
         \<lparr>option_label = ''Time'', additional_query_filter = Some filter_time_taken\<rparr>),
      (''db_time'',
         \<lparr>option_label = ''DB Time'', additional_query_filter = Some filter_db_time\<rparr>)]"

text \<open>An entry of a sort list is a dict with the keys \<open>field\<close> and \<open>dir\<close>, both strings.\<close>

type_synonym sort_item = "string \<rightharpoonup> string"

definition dict_get :: "('k \<rightharpoonup> 'v) \<Rightarrow> 'k \<Rightarrow> 'v \<Rightarrow> 'v" where
  "dict_get d k dflt = (case d k of None \<Rightarrow> dflt | Some v \<Rightarrow> v)"

definition DEFAULT_SORT_LIST :: "sort_item list" where
  "DEFAULT_SORT_LIST = [[''field'' \<mapsto> ''start_time'', ''dir'' \<mapsto> ''DESC'']]"

subsection \<open>\<open>QuerySet.order_by\<close>\<close>

text \<open>
  The values of a column, with the order of the database: null first, numbers by
  size, texts by their characters. A name that is neither a field nor an annotation of
  the queryset raises \<open>FieldError\<close>.
\<close>

datatype sql_value = SqlNull | SqlInt int | SqlReal real | SqlText string

fun sql_less :: "sql_value \<Rightarrow> sql_value \<Rightarrow> bool" where
  "sql_less SqlNull SqlNull = False"
| "sql_less SqlNull _ = True"
| "sql_less (SqlInt a) (SqlInt b) = (a < b)"
| "sql_less (SqlReal a) (SqlReal b) = (a < b)"
| "sql_less (SqlText a) (SqlText b) = (a < b)"
| "sql_less _ _ = False"

definition of_real_option :: "real option \<Rightarrow> sql_value" where
  "of_real_option v = (case v of None \<Rightarrow> SqlNull | Some t \<Rightarrow> SqlReal t)"

definition resolve_field :: "bool \<Rightarrow> string \<Rightarrow> (request \<Rightarrow> sql_value) option" where
  "resolve_field annotated name =
     (if name = ''pk'' \<or> name = ''id'' then Some (\<lambda>r. SqlInt (int (request_pk r)))
      else if name = ''path'' then Some (\<lambda>r. SqlText (path r))
      else if name = ''view_name'' then Some (\<lambda>r. SqlText (view_name r))
      else if name = ''method'' then Some (\<lambda>r. SqlText (http_method r))
      else if name = ''start_time'' then Some (\<lambda>r. SqlInt (start_time r))
      else if name = ''time_taken'' then Some (\<lambda>r. of_real_option (time_taken r))
      else if name = ''num_sql_queries'' then Some (\<lambda>r. SqlInt (num_sql_queries r))
      else if name = ''db_time'' \<and> annotated then Some (\<lambda>r. of_real_option (db_time r))
      else None)"

text \<open>One term of the ordering: descending or not, and the column.\<close>

definition order_term :: "bool \<Rightarrow> string \<Rightarrow> (bool \<times> (request \<Rightarrow> sql_value)) option" where
  "order_term annotated f =
     (case f of
        [] \<Rightarrow> None
      | c # name \<Rightarrow>
          if c = CHR ''-'' then map_option (Pair True) (resolve_field annotated name)
          else map_option (Pair False) (resolve_field annotated f))"

fun order_terms :: "bool \<Rightarrow> string list \<Rightarrow> (bool \<times> (request \<Rightarrow> sql_value)) list option" where
  "order_terms annotated [] = Some []"
| "order_terms annotated (f # fs) =
     (case order_term annotated f of
        None \<Rightarrow> None
      | Some t \<Rightarrow> map_option ((#) t) (order_terms annotated fs))"

text \<open>One compound ordering: a later term decides only where the earlier ones tie.\<close>

fun row_less :: "(bool \<times> (request \<Rightarrow> sql_value)) list \<Rightarrow> request \<Rightarrow> request \<Rightarrow> bool" where
  "row_less [] a b = False"
| "row_less ((desc, col) # ts) a b =
     (if col a = col b then row_less ts a b
      else if desc then sql_less (col b) (col a)
      else sql_less (col a) (col b))"

fun insert_row :: "(bool \<times> (request \<Rightarrow> sql_value)) list \<Rightarrow> request \<Rightarrow> request list
    \<Rightarrow> request list" where
  "insert_row ts x [] = [x]"
| "insert_row ts x (y # ys) =
     (if row_less ts y x then y # insert_row ts x ys else x # y # ys)"

definition order_rows :: "(bool \<times> (request \<Rightarrow> sql_value)) list \<Rightarrow> request list
    \<Rightarrow> request list" where
  "order_rows ts xs = foldr (insert_row ts) xs []"

definition order_by :: "string list \<Rightarrow> query_set \<Rightarrow> py_error + query_set" where
  "order_by order_fields qs =
     (case order_terms (has_db_time qs) order_fields of
        None \<Rightarrow> Inl FieldError
      | Some ts \<Rightarrow> Inr (qs\<lparr>rows := order_rows ts (rows qs)\<rparr>))"

subsection \<open>\<open>_apply_sort\<close>\<close>

text \<open>The loop over \<open>sort_list\<close>, carrying \<open>query_set\<close> and \<open>order_fields\<close>.\<close>

fun apply_sort_loop :: "query_set \<Rightarrow> string list \<Rightarrow> sort_item list
    \<Rightarrow> query_set \<times> string list" where
  "apply_sort_loop query_set order_fields [] = (query_set, order_fields)"
| "apply_sort_loop query_set order_fields (item # rest) =
     (let field = dict_get item ''field'' ''start_time'';
          direction = dict_get item ''dir'' ''DESC''
      in case map_of SORT_OPTIONS field of
           None \<Rightarrow> apply_sort_loop query_set order_fields rest
         | Some opt \<Rightarrow>
             (let query_set' = (case additional_query_filter opt of
                                  None \<Rightarrow> query_set
                                | Some f \<Rightarrow> f query_set);
                  prefix = (if direction = ''DESC'' then ''-'' else '''')
              in apply_sort_loop query_set' (order_fields @ [prefix @ field]) rest))"

definition apply_sort :: "query_set \<Rightarrow> sort_item list \<Rightarrow> py_error + query_set" where
  "apply_sort query_set sort_list =
     (case apply_sort_loop query_set [] sort_list of
        (query_set', order_fields) \<Rightarrow>
          if order_fields \<noteq> [] then order_by order_fields query_set' else Inr query_set')"

subsection \<open>\<open>RequestsView._get_objects\<close>\<close>

text \<open>The argument \<open>show\<close>: not passed, \<open>None\<close>, or a page size.\<close>

datatype show_arg = ShowNotSet | ShowNone | Show nat

text \<open>
  A filter of \<open>silk.request_filters\<close>, as far as the method uses it: what
  \<open>contribute_to_query_set\<close> does and the condition \<open>query_set.filter(f)\<close> applies.
\<close>

record base_filter =
  contribute_to_query_set :: "query_set \<Rightarrow> query_set"
  condition :: "request \<Rightarrow> bool"

definition default_order_by :: string where
  "default_order_by = ''start_time''"

definition default_order_dir :: string where
  "default_order_dir = ''DESC''"

definition default_show :: nat where
  "default_show = 25"

text \<open>\<open>if not x: x = d\<close> for an optional string: \<open>None\<close> and the empty string are false.\<close>

definition or_default :: "string option \<Rightarrow> string \<Rightarrow> string" where
  "or_default x d = (case x of None \<Rightarrow> d | Some s \<Rightarrow> if s = [] then d else s)"

definition apply_filter :: "query_set \<Rightarrow> base_filter \<Rightarrow> query_set" where
  "apply_filter query_set f =
     (let query_set' = contribute_to_query_set f query_set
      in query_set'\<lparr>rows := filter (condition f) (rows query_set')\<rparr>)"

definition get_objects :: "request list \<Rightarrow> show_arg \<Rightarrow> string option \<Rightarrow> string option
    \<Rightarrow> string option \<Rightarrow> base_filter list option \<Rightarrow> sort_item list option
    \<Rightarrow> py_error + query_set" where
  "get_objects all_requests show order_by_arg order_dir_arg path_arg filters sort_list =
     (let filters = (case filters of None \<Rightarrow> [] | Some fs \<Rightarrow> fs);
          query_set = objects_all all_requests;
          sort_list = (case sort_list of None \<Rightarrow> [] | Some items \<Rightarrow> items);
          sorted_set =
            (if sort_list \<noteq> [] then apply_sort query_set sort_list
             else
               (let order_by_arg = or_default order_by_arg default_order_by;
                    order_dir_arg = or_default order_dir_arg default_order_dir
                in if map_of SORT_OPTIONS order_by_arg = None then Inl RuntimeError
                   else apply_sort query_set
                          [[''field'' \<mapsto> order_by_arg, ''dir'' \<mapsto> order_dir_arg]]))
      in case sorted_set of
           Inl e \<Rightarrow> Inl e
         | Inr query_set \<Rightarrow>
             (let query_set =
                    (if or_default path_arg [] \<noteq> []
                     then query_set\<lparr>rows := filter (\<lambda>r. path r = the path_arg) (rows query_set)\<rparr>
                     else query_set);
                  query_set = foldl apply_filter query_set filters;
                  show = (case show of ShowNotSet \<Rightarrow> Some default_show
                                     | ShowNone \<Rightarrow> None
                                     | Show n \<Rightarrow> Some n)
              in case show of
                   Some n \<Rightarrow> Inr (query_set\<lparr>rows := take n (rows query_set)\<rparr>)
                 | None \<Rightarrow> Inr query_set))"

section \<open>silk/views/requests.py: \<open>RequestsView.post\<close>\<close>

text \<open>The values of a form or of the stored state: strings, numbers and dicts.\<close>

datatype val = VStr string | VInt int | VDict "(string \<times> val) list"

fun truthy :: "val \<Rightarrow> bool" where
  "truthy (VStr s) = (s \<noteq> [])"
| "truthy (VInt n) = (n \<noteq> 0)"
| "truthy (VDict d) = (d \<noteq> [])"

text \<open>What \<open>json.loads\<close> returns, as far as the view looks at it.\<close>

datatype json = JList "sort_item list" | JOther

text \<open>
  The state kept between requests: whether the request has a session, the sort list
  stored under \<open>SESSION_KEY_SORT\<close>, and the states that \<open>FiltersManager\<close> keeps.
\<close>

record session =
  has_session :: bool
  request_sort :: "sort_item list option"
  filter_store :: "string \<rightharpoonup> (string \<rightharpoonup> val)"

definition SESSION_KEY_FILTERS :: string where
  "SESSION_KEY_FILTERS = ''request_filters''"

text \<open>
  Modelled from the spec: \<open>FiltersManager\<close> of \<open>silk.request_filters\<close>, which is not among
  the source files. Section 4.6: \<open>get\<close> returns the current state, the empty state if
  there is none; \<open>save\<close> replaces the state.
\<close>

definition FiltersManager_get :: "string \<Rightarrow> session \<Rightarrow> (string \<rightharpoonup> val)" where
  "FiltersManager_get key s = (case filter_store s key of None \<Rightarrow> Map.empty | Some d \<Rightarrow> d)"

definition FiltersManager_save :: "string \<Rightarrow> (string \<rightharpoonup> val) \<Rightarrow> session \<Rightarrow> session" where
  "FiltersManager_save key filters s = s\<lparr>filter_store := (filter_store s)(key \<mapsto> filters)\<rparr>"

definition save_sort_list :: "sort_item list \<Rightarrow> session \<Rightarrow> session" where
  "save_sort_list sort_list s =
     (if has_session s then s\<lparr>request_sort := Some sort_list\<rparr> else s)"

text \<open>\<open>{k: v for k, v in d.items() if k in keys}\<close> on a dict.\<close>

definition only_keys :: "string list \<Rightarrow> (string \<rightharpoonup> 'v) \<Rightarrow> (string \<rightharpoonup> 'v)" where
  "only_keys keys d = (\<lambda>k. if k \<in> set keys then d k else None)"

text \<open>The dict built from a sequence of items: a later item replaces an earlier one.\<close>

fun dict_of :: "(string \<times> 'v) list \<Rightarrow> (string \<rightharpoonup> 'v)" where
  "dict_of [] = Map.empty"
| "dict_of ((k, v) # rest) = [k \<mapsto> v] ++ dict_of rest"

text \<open>
  \<open>post\<close> as the change of the stored state; rendering the page is not part of it.
  \<open>POST\<close> is the form as \<open>request.POST.items()\<close> yields it, one item for each key.
  Two things come from outside the file: \<open>json_loads\<close> is \<open>json.loads\<close> on a string
  (\<open>None\<close> when it raises \<open>ValueError\<close>), and \<open>filters_from_request\<close> gives the dict
  \<open>{ident: f.as_dict() for ident, f in filters_from_request(request).items()}\<close>.
\<close>

definition post :: "(string \<Rightarrow> json option) \<Rightarrow> ((string \<times> val) list \<Rightarrow> (string \<rightharpoonup> val))
    \<Rightarrow> (string \<times> val) list \<Rightarrow> session \<Rightarrow> session" where
  "post json_loads filters_from_request POST s =
     (let previous_session = FiltersManager_get SESSION_KEY_FILTERS s;
          sort_criteria_raw = dict_get (map_of POST) ''sort_criteria'' (VStr '''');
          s1 = (if truthy sort_criteria_raw then
                  (case (case sort_criteria_raw of
                           VStr raw \<Rightarrow> json_loads raw
                         | _ \<Rightarrow> None) of
                     Some (JList sort_list) \<Rightarrow>
                       save_sort_list (if sort_list \<noteq> [] then sort_list else DEFAULT_SORT_LIST) s
                   | _ \<Rightarrow> s)
                else s);
          is_filter_submit = list_ex (\<lambda>(k, v). prefix ''filter-'' k) POST
      in if ''clear_filters'' \<in> set (map fst POST) then
           FiltersManager_save SESSION_KEY_FILTERS
             (only_keys [''show'', ''view_style''] previous_session) s1
         else if is_filter_submit then
           FiltersManager_save SESSION_KEY_FILTERS
             (only_keys [''show'', ''order_by'', ''order_dir'', ''view_style''] previous_session
                ++ filters_from_request POST) s1
         else
           (let non_filter_keys = [''show'', ''order_by'', ''order_dir'', ''view_style''];
                updated = dict_of (filter (\<lambda>(k, v). k \<in> set non_filter_keys) POST)
            in FiltersManager_save SESSION_KEY_FILTERS (previous_session ++ updated) s1))"

section \<open>Notions for the statements\<close>

text \<open>
  To state the histogram: the number of rows whose time is not null, not negative and
  in a given range; the bucket list with given counts; a row with a given time.
\<close>

definition count_where :: "(real \<Rightarrow> bool) \<Rightarrow> request list \<Rightarrow> nat" where
  "count_where P rs =
     length (filter (\<lambda>r. case time_taken r of None \<Rightarrow> False | Some t \<Rightarrow> 0 \<le> t \<and> P t) rs)"

definition hist :: "nat \<Rightarrow> nat \<Rightarrow> nat \<Rightarrow> nat \<Rightarrow> nat \<Rightarrow> nat \<Rightarrow> hist_bucket list" where
  "hist c1 c2 c3 c4 c5 c6 =
     [\<lparr>label = ''<50ms'', bucket_max = Some 50, bucket_count = c1\<rparr>,
      \<lparr>label = ''50-100ms'', bucket_max = Some 100, bucket_count = c2\<rparr>,
      \<lparr>label = ''100-200ms'', bucket_max = Some 200, bucket_count = c3\<rparr>,
      \<lparr>label = ''200-500ms'', bucket_max = Some 500, bucket_count = c4\<rparr>,
      \<lparr>label = ''500ms-1s'', bucket_max = Some 1000, bucket_count = c5\<rparr>,
      \<lparr>label = ''>1s'', bucket_max = None, bucket_count = c6\<rparr>]"

definition req :: "nat \<Rightarrow> real option \<Rightarrow> request" where
  "req n t = \<lparr>request_pk = n, path = ''/'', view_name = '''', http_method = ''GET'',
     start_time = 0, time_taken = t, num_sql_queries = 0, request_queries = []\<rparr>"

text \<open>
  To state the distribution: the number of responses that belong to one of the given
  requests and have a status code, not null, of a given class; a response.
\<close>

definition responses_where :: "(int \<Rightarrow> bool) \<Rightarrow> request list \<Rightarrow> response list \<Rightarrow> nat" where
  "responses_where cls rs responses =
     length (filter (\<lambda>r. case status_code r of
                             None \<Rightarrow> False
                           | Some sc \<Rightarrow> request_id r \<in> set (map request_pk rs) \<and> cls sc)
                    responses)"

definition resp :: "nat \<Rightarrow> nat \<Rightarrow> int option \<Rightarrow> response" where
  "resp n rid sc = \<lparr>response_pk = n, request_id = rid, status_code = sc\<rparr>"

definition quad :: "nat \<Rightarrow> nat \<Rightarrow> nat \<Rightarrow> nat \<Rightarrow> (string \<rightharpoonup> nat)" where
  "quad a b c d = [''2xx'' \<mapsto> a, ''3xx'' \<mapsto> b, ''4xx'' \<mapsto> c, ''5xx'' \<mapsto> d]"

definition class_sum :: "(int \<Rightarrow> bool) \<Rightarrow> (int \<times> nat) list \<Rightarrow> nat" where
  "class_sum cls srows = sum_list (map (\<lambda>(sc, n). if cls sc then n else 0) srows)"

text \<open>To state what \<open>post\<close> does: the stored filter state of the requests view.\<close>

definition stored_filters :: "session \<Rightarrow> (string \<rightharpoonup> val)" where
  "stored_filters s = FiltersManager_get SESSION_KEY_FILTERS s"

definition session_with :: "(string \<rightharpoonup> val) \<Rightarrow> session" where
  "session_with d =
     \<lparr>has_session = True, request_sort = None, filter_store = [SESSION_KEY_FILTERS \<mapsto> d]\<rparr>"

text \<open>
  To state what \<open>_apply_sort\<close> does: the field an entry names, whether that field is a
  key of \<open>SORT_OPTIONS\<close>, the name the entry adds to \<open>order_fields\<close>, what one round of the
  loop does to the queryset, and the condition that the filters of the named fields put
  on a row.
\<close>

definition item_field :: "sort_item \<Rightarrow> string" where
  "item_field item = dict_get item ''field'' ''start_time''"

definition known_item :: "sort_item \<Rightarrow> bool" where
  "known_item item = (map_of SORT_OPTIONS (item_field item) \<noteq> None)"

definition order_field :: "sort_item \<Rightarrow> string" where
  "order_field item =
     (if dict_get item ''dir'' ''DESC'' = ''DESC'' then ''-'' else '''') @ item_field item"

definition sort_step :: "string \<Rightarrow> query_set \<Rightarrow> query_set" where
  "sort_step f qs =
     (if f = ''time_taken'' then filter_time_taken qs
      else if f = ''db_time'' then filter_db_time qs else qs)"

definition kept_by_sort :: "sort_item list \<Rightarrow> request \<Rightarrow> bool" where
  "kept_by_sort sort_list r =
     ((''time_taken'' \<in> set (map item_field sort_list) \<longrightarrow> gte_0 (time_taken r))
      \<and> (''db_time'' \<in> set (map item_field sort_list) \<longrightarrow> gte_0 (db_time r)))"

text \<open>
  The fingerprint of a query record, the fingerprints of a list of queries in the order
  of their first encounter, and the group the specification gives to a fingerprint.
\<close>

definition fp_of :: "sql_query \<Rightarrow> string" where
  "fp_of q = fingerprint_query (query q)"

definition fingerprints :: "sql_query list \<Rightarrow> string list" where
  "fingerprints qs = first_seen (map fp_of qs)"

definition group_of :: "sql_query list \<Rightarrow> string \<Rightarrow> n_plus_one_group" where
  "group_of qs fp =
     \<lparr>fingerprint = fp, queries = members qs fp, group_count = length (members qs fp),
      representative = hd (members qs fp)\<rparr>"

definition sq :: "nat \<Rightarrow> string \<Rightarrow> sql_query" where
  "sq n text = \<lparr>pk = n, query = text, query_time_taken = None\<rparr>"

text \<open>
  To state the properties of the fingerprint: the double quote, the number of single
  quotes of a text, and texts that begin or end at a word boundary.
\<close>

definition dquote :: char where
  "dquote = CHR 0x22"

definition quotes_in :: "string \<Rightarrow> nat" where
  "quotes_in s = length (filter (\<lambda>c. c = quote) s)"




section \<open>Properties of \<open>_percentile\<close>\<close>

lemma py_index_last: "xs \<noteq> [] \<Longrightarrow> py_index xs (- 1) = Inr (last xs)"
proof -
  assume ne: "xs \<noteq> []"
  then have len: "1 \<le> length xs" by (cases xs) simp_all
  then have "nat (int (length xs) + - 1) = length xs - 1" by simp
  then show ?thesis using ne len by (simp add: py_index_def last_conv_nth)
qed

lemma py_index_in_range:
  "0 \<le> i \<Longrightarrow> i < int (length xs) \<Longrightarrow> py_index xs i = Inr (xs ! nat i)"
  by (simp add: py_index_def)

lemma percentile_refines:
  assumes "0 \<le> p"
  shows "percentile sample p = Inr (percentile_spec sample p)"
proof (cases "sample = []")
  case True
  then show ?thesis by (simp add: percentile_def percentile_spec_def)
next
  case False
  define n where "n = int (length sample)"
  define idx where "idx = (p / 100) * real_of_int (n - 1)"
  have n_pos: "0 < n" using False by (simp add: n_def)
  have idx_nonneg: "0 \<le> idx" using assms n_pos by (simp add: idx_def)
  have lo: "py_int idx = \<lfloor>idx\<rfloor>" using idx_nonneg by (simp add: py_int_def)
  have lo_nonneg: "0 \<le> \<lfloor>idx\<rfloor>" using idx_nonneg by simp
  have code: "percentile sample p =
      (if \<lfloor>idx\<rfloor> + 1 \<ge> n then py_index sample (- 1)
       else (case py_index sample \<lfloor>idx\<rfloor> of
               Inl e \<Rightarrow> Inl e
             | Inr a \<Rightarrow>
                 (case py_index sample (\<lfloor>idx\<rfloor> + 1) of
                    Inl e \<Rightarrow> Inl e
                  | Inr b \<Rightarrow> Inr (a * (1 - (idx - real_of_int \<lfloor>idx\<rfloor>))
                                  + b * (idx - real_of_int \<lfloor>idx\<rfloor>)))))"
    unfolding percentile_def Let_def n_def [symmetric] idx_def [symmetric] lo
    using n_pos by simp
  have idx_spec: "p / 100 * (real (length sample) - 1) = idx"
    using n_pos by (simp add: idx_def n_def)
  have spec: "percentile_spec sample p =
      (if \<lfloor>idx\<rfloor> + 1 \<ge> n then last sample
       else sample ! nat \<lfloor>idx\<rfloor> * (1 - (idx - real_of_int \<lfloor>idx\<rfloor>))
            + sample ! nat (\<lfloor>idx\<rfloor> + 1) * (idx - real_of_int \<lfloor>idx\<rfloor>))"
    unfolding percentile_spec_def Let_def idx_spec n_def [symmetric]
    using False by simp
  show ?thesis
  proof (cases "\<lfloor>idx\<rfloor> + 1 \<ge> n")
    case True
    then show ?thesis
      using False by (simp add: code spec py_index_last)
  next
    case hi: False
    have "py_index sample \<lfloor>idx\<rfloor> = Inr (sample ! nat \<lfloor>idx\<rfloor>)"
      using lo_nonneg hi by (intro py_index_in_range) (simp_all add: n_def)
    moreover have "py_index sample (\<lfloor>idx\<rfloor> + 1) = Inr (sample ! nat (\<lfloor>idx\<rfloor> + 1))"
      using lo_nonneg hi by (intro py_index_in_range) (simp_all add: n_def)
    ultimately show ?thesis
      using hi by (simp add: code spec)
  qed
qed

lemma percentile_single: "percentile [x] q = Inr x"
  by (simp add: percentile_def py_index_def py_int_def Let_def)

text \<open>
  Claim C1. For every sample and every \<open>p\<close> from 0 to 100, \<open>_percentile\<close> returns, without
  raising, the value of the linear-interpolation definition: with \<open>n\<close> the size of the
  sample and \<open>idx = p/100 * (n-1)\<close>, \<open>lo = floor(idx)\<close>, \<open>hi = lo+1\<close>,
  \<open>frac = idx - lo\<close>, the last element when \<open>hi >= n\<close> and otherwise
  \<open>sample[lo]*(1-frac) + sample[hi]*frac\<close>. The empty sample gives 0, a sample of one
  element gives that element for every \<open>p\<close>, and \<open>[10,20,30,40]\<close> at 50 gives 25. The
  sample need not be ascending for this.
\<close>

theorem percentile_linear_interpolation:
  "(0 \<le> p \<and> p \<le> 100 \<longrightarrow> percentile sample p = Inr (percentile_spec sample p))
   \<and> percentile [] 50 = Inr 0
   \<and> percentile [x] q = Inr x
   \<and> percentile [10, 20, 30, 40] 50 = Inr 25"
  using percentile_refines [of p sample] percentile_single [of x q]
  by (simp add: percentile_def py_index_def py_int_def Let_def)

text \<open>The claim at the rank 75 of \<open>[10,20,30,40]\<close>, where the result is 32.5.\<close>

theorem percentile_linear_interpolation_witness:
  "percentile [10, 20, 30, 40] 75 = Inr (percentile_spec [10, 20, 30, 40] 75)
   \<and> percentile_spec [10, 20, 30, 40] 75 = 65 / 2
   \<and> percentile [7] 33 = Inr 7"
  using percentile_linear_interpolation [of 75 "[10, 20, 30, 40]" 7 33]
  by (simp add: percentile_spec_def Let_def)

section \<open>Properties of \<open>_response_time_histogram\<close>\<close>

lemma histogram_buckets_hist: "histogram_buckets = hist 0 0 0 0 0 0"
  by (simp add: histogram_buckets_def hist_def)

lemma count_time_hist:
  "count_time t (hist c1 c2 c3 c4 c5 c6) =
     hist (c1 + (if t < 50 then 1 else 0))
          (c2 + (if 50 \<le> t \<and> t < 100 then 1 else 0))
          (c3 + (if 100 \<le> t \<and> t < 200 then 1 else 0))
          (c4 + (if 200 \<le> t \<and> t < 500 then 1 else 0))
          (c5 + (if 500 \<le> t \<and> t < 1000 then 1 else 0))
          (c6 + (if 1000 \<le> t then 1 else 0))"
  by (simp add: hist_def)

lemma count_times_hist:
  "count_times ts (hist c1 c2 c3 c4 c5 c6) =
     hist (c1 + length (filter (\<lambda>t. t < 50) ts))
          (c2 + length (filter (\<lambda>t. 50 \<le> t \<and> t < 100) ts))
          (c3 + length (filter (\<lambda>t. 100 \<le> t \<and> t < 200) ts))
          (c4 + length (filter (\<lambda>t. 200 \<le> t \<and> t < 500) ts))
          (c5 + length (filter (\<lambda>t. 500 \<le> t \<and> t < 1000) ts))
          (c6 + length (filter (\<lambda>t. 1000 \<le> t) ts))"
proof (induction ts arbitrary: c1 c2 c3 c4 c5 c6)
  case Nil
  show ?case by simp
next
  case (Cons t ts)
  show ?case
    unfolding count_times.simps count_time_hist Cons.IH
    by (simp add: hist_def)
qed

lemma considered_count:
  "length (filter P (considered_times rs)) = count_where P rs"
  by (induction rs) (simp_all add: considered_times_def count_where_def split: option.splits)

lemma considered_total: "length (considered_times rs) = count_where (\<lambda>t. True) rs"
  using considered_count [of "\<lambda>t. True" rs] by simp

lemma filter_partition6:
  "length (filter (\<lambda>t::real. t < 50) ts)
   + length (filter (\<lambda>t. 50 \<le> t \<and> t < 100) ts)
   + length (filter (\<lambda>t. 100 \<le> t \<and> t < 200) ts)
   + length (filter (\<lambda>t. 200 \<le> t \<and> t < 500) ts)
   + length (filter (\<lambda>t. 500 \<le> t \<and> t < 1000) ts)
   + length (filter (\<lambda>t. 1000 \<le> t) ts) = length ts"
  by (induction ts) auto

text \<open>
  Claim C4. The histogram counts a time in the first bucket of the fixed list
  (50, 100, 200, 500, 1000, unbounded) whose bound it is strictly less than, and in the
  unbounded bucket otherwise: the count of each bucket is the number of rows whose time
  is not null, not negative and in the half-open range of the bucket, so a time equal to
  a bound is in the next bucket. The counts add up to the number of rows with a time
  that is not null and not negative: each is counted once, and no other row is.
\<close>

theorem response_time_histogram_buckets:
  "response_time_histogram all_requests filters =
     (let rs = objects_filter filters all_requests
      in [(''<50ms'', count_where (\<lambda>t. t < 50) rs),
          (''50-100ms'', count_where (\<lambda>t. 50 \<le> t \<and> t < 100) rs),
          (''100-200ms'', count_where (\<lambda>t. 100 \<le> t \<and> t < 200) rs),
          (''200-500ms'', count_where (\<lambda>t. 200 \<le> t \<and> t < 500) rs),
          (''500ms-1s'', count_where (\<lambda>t. 500 \<le> t \<and> t < 1000) rs),
          (''>1s'', count_where (\<lambda>t. 1000 \<le> t) rs)])
   \<and> sum_list (map snd (response_time_histogram all_requests filters)) =
       count_where (\<lambda>t. True) (objects_filter filters all_requests)"
proof -
  define ts where "ts = considered_times (objects_filter filters all_requests)"
  have run: "response_time_histogram all_requests filters =
      map (\<lambda>b. (label b, bucket_count b)) (count_times ts (hist 0 0 0 0 0 0))"
    by (simp add: response_time_histogram_def Let_def ts_def histogram_buckets_hist)
  have first: "response_time_histogram all_requests filters =
      [(''<50ms'', length (filter (\<lambda>t. t < 50) ts)),
       (''50-100ms'', length (filter (\<lambda>t. 50 \<le> t \<and> t < 100) ts)),
       (''100-200ms'', length (filter (\<lambda>t. 100 \<le> t \<and> t < 200) ts)),
       (''200-500ms'', length (filter (\<lambda>t. 200 \<le> t \<and> t < 500) ts)),
       (''500ms-1s'', length (filter (\<lambda>t. 500 \<le> t \<and> t < 1000) ts)),
       (''>1s'', length (filter (\<lambda>t. 1000 \<le> t) ts))]"
    unfolding run count_times_hist by (simp add: hist_def)
  have total: "sum_list (map snd (response_time_histogram all_requests filters)) = length ts"
    unfolding first using filter_partition6 [of ts] by simp
  show ?thesis
    using first total by (simp add: ts_def considered_count considered_total Let_def)
qed

text \<open>Times 50, null, -1 and 1000: 50 is in the second bucket, 1000 in the last.\<close>

theorem response_time_histogram_buckets_witness:
  "response_time_histogram [req 1 (Some 50), req 2 None, req 3 (Some (- 1)), req 4 (Some 1000)] [] =
     [(''<50ms'', 0), (''50-100ms'', 1), (''100-200ms'', 0), (''200-500ms'', 0),
      (''500ms-1s'', 0), (''>1s'', 1)]"
  using response_time_histogram_buckets
    [of "[req 1 (Some 50), req 2 None, req 3 (Some (- 1)), req 4 (Some 1000)]" "[]"]
  by (simp add: objects_filter_def count_where_def req_def Let_def)

section \<open>Properties of \<open>_status_distribution\<close>\<close>

lemma zero_buckets_quad: "zero_buckets = quad 0 0 0 0"
  by (simp add: zero_buckets_def quad_def)

lemma dict_add_quad:
  "dict_add (quad a b c d) ''2xx'' n = Inr (quad (a + n) b c d)"
  "dict_add (quad a b c d) ''3xx'' n = Inr (quad a (b + n) c d)"
  "dict_add (quad a b c d) ''4xx'' n = Inr (quad a b (c + n) d)"
  "dict_add (quad a b c d) ''5xx'' n = Inr (quad a b c (d + n))"
  by (auto simp add: dict_add_def quad_def fun_eq_iff)

lemma add_status_rows_quad:
  "add_status_rows srows (quad a b c d) =
     Inr (quad (a + class_sum (\<lambda>sc. 200 \<le> sc \<and> sc < 300) srows)
               (b + class_sum (\<lambda>sc. 300 \<le> sc \<and> sc < 400) srows)
               (c + class_sum (\<lambda>sc. 400 \<le> sc \<and> sc < 500) srows)
               (d + class_sum (\<lambda>sc. 500 \<le> sc) srows))"
proof (induction srows arbitrary: a b c d)
  case Nil
  show ?case by (simp add: class_sum_def)
next
  case (Cons row srows)
  obtain sc n where row: "row = (sc, n)" by (cases row)
  consider "200 \<le> sc \<and> sc < 300" | "300 \<le> sc \<and> sc < 400" | "400 \<le> sc \<and> sc < 500"
    | "500 \<le> sc" | "sc < 200" by linarith
  then show ?case
  proof cases
    case 1
    then show ?thesis by (simp add: row dict_add_quad Cons.IH class_sum_def add.assoc)
  next
    case 2
    then show ?thesis by (simp add: row dict_add_quad Cons.IH class_sum_def add.assoc)
  next
    case 3
    then show ?thesis by (simp add: row dict_add_quad Cons.IH class_sum_def add.assoc)
  next
    case 4
    then show ?thesis by (simp add: row dict_add_quad Cons.IH class_sum_def add.assoc)
  next
    case 5
    then show ?thesis by (simp add: row Cons.IH class_sum_def)
  qed
qed

lemma length_filter_eq_count: "length (filter (\<lambda>y. y = x) xs) = count_list xs x"
  by (induction xs) simp_all

lemma class_sum_grouped:
  "class_sum cls (map (\<lambda>sc. (sc, length (filter (\<lambda>x. x = sc) scs))) (remdups scs)) =
     length (filter cls scs)"
proof -
  let ?f = "\<lambda>x. if cls x then 1 else (0::nat)"
  have "length (filter cls scs) = sum_list (map ?f scs)"
    by (induction scs) simp_all
  also have "\<dots> = (\<Sum>x\<in>set scs. count_list scs x * ?f x)"
    by (rule sum_list_map_eq_sum_count)
  also have "\<dots> = (\<Sum>x\<in>set (remdups scs). if cls x then count_list scs x else 0)"
    by (intro sum.cong) simp_all
  also have "\<dots> = sum_list (map (\<lambda>x. if cls x then count_list scs x else 0) (remdups scs))"
    by (simp add: sum_list_distinct_conv_sum_set)
  also have "\<dots> = class_sum cls (map (\<lambda>sc. (sc, length (filter (\<lambda>x. x = sc) scs))) (remdups scs))"
    unfolding class_sum_def length_filter_eq_count by (simp add: comp_def)
  finally show ?thesis by simp
qed

lemma class_sum_status_rows:
  "class_sum cls (status_rows pks responses) =
     length (filter cls (status_codes_of pks responses))"
  unfolding status_rows_def Let_def by (rule class_sum_grouped)

lemma status_codes_count:
  "length (filter cls (status_codes_of (map request_pk rs) responses)) =
     responses_where cls rs responses"
  by (induction responses)
     (simp_all add: status_codes_of_def responses_where_def split: option.splits)

lemma responses_where_no_requests: "responses_where cls [] responses = 0"
  by (simp add: responses_where_def split: option.splits)

text \<open>
  Claim C7, as the code has it. The result always holds the four buckets. A response
  that belongs to one of the requests and has a status code is counted once: in 2xx
  from 200 to 299, in 3xx from 300 to 399, in 4xx from 400 to 499, in 5xx from 500 on.
  A response without a status code or with one below 200 is in no bucket. With no
  request, all four buckets are zero.
\<close>

theorem status_distribution_buckets:
  "status_distribution all_requests all_responses filters =
     (let rs = objects_filter filters all_requests
      in Inr [''2xx'' \<mapsto> responses_where (\<lambda>sc. 200 \<le> sc \<and> sc < 300) rs all_responses,
              ''3xx'' \<mapsto> responses_where (\<lambda>sc. 300 \<le> sc \<and> sc < 400) rs all_responses,
              ''4xx'' \<mapsto> responses_where (\<lambda>sc. 400 \<le> sc \<and> sc < 500) rs all_responses,
              ''5xx'' \<mapsto> responses_where (\<lambda>sc. 500 \<le> sc) rs all_responses])
   \<and> status_distribution [] all_responses filters =
       Inr [''2xx'' \<mapsto> 0, ''3xx'' \<mapsto> 0, ''4xx'' \<mapsto> 0, ''5xx'' \<mapsto> 0]"
proof -
  define rs where "rs = objects_filter filters all_requests"
  have main: "status_distribution all_requests all_responses filters =
      Inr (quad (responses_where (\<lambda>sc. 200 \<le> sc \<and> sc < 300) rs all_responses)
                (responses_where (\<lambda>sc. 300 \<le> sc \<and> sc < 400) rs all_responses)
                (responses_where (\<lambda>sc. 400 \<le> sc \<and> sc < 500) rs all_responses)
                (responses_where (\<lambda>sc. 500 \<le> sc) rs all_responses))"
  proof (cases "rs = []")
    case True
    then show ?thesis
      by (simp add: status_distribution_def Let_def zero_buckets_quad
          responses_where_no_requests flip: rs_def)
  next
    case False
    then have "status_distribution all_requests all_responses filters =
        add_status_rows (status_rows (map request_pk rs) all_responses) (quad 0 0 0 0)"
      by (simp add: status_distribution_def Let_def zero_buckets_quad flip: rs_def)
    then show ?thesis
      by (simp add: add_status_rows_quad class_sum_status_rows status_codes_count)
  qed
  have none: "status_distribution [] all_responses filters = Inr (quad 0 0 0 0)"
    by (simp add: status_distribution_def objects_filter_def zero_buckets_quad)
  show ?thesis
    using main none by (simp add: quad_def Let_def flip: rs_def)
qed

text \<open>
  Two requests; responses with 200, 404, 503, 600, 101 and no code for them, and one
  with 200 for another request.
\<close>

theorem status_distribution_buckets_witness:
  "status_distribution [req 1 None, req 2 None]
     [resp 1 1 (Some 200), resp 2 2 (Some 404), resp 3 1 (Some 503), resp 4 2 (Some 600),
      resp 5 1 (Some 101), resp 6 2 None, resp 7 9 (Some 200)] [] =
     Inr [''2xx'' \<mapsto> 1, ''3xx'' \<mapsto> 0, ''4xx'' \<mapsto> 1, ''5xx'' \<mapsto> 2]"
  using status_distribution_buckets [of "[req 1 None, req 2 None]"
      "[resp 1 1 (Some 200), resp 2 2 (Some 404), resp 3 1 (Some 503), resp 4 2 (Some 600),
        resp 5 1 (Some 101), resp 6 2 None, resp 7 9 (Some 200)]" "[]"]
  by (simp add: objects_filter_def responses_where_def req_def resp_def Let_def numeral_2_eq_2)

text \<open>
  The claim as stated fails: a response with the status code 101, not null, of a request
  of the set is counted in none of the four buckets.
\<close>

theorem status_distribution_counterexample:
  "responses_where (\<lambda>sc. True) [req 1 None] [resp 1 1 (Some 101)] = 1
   \<and> status_distribution [req 1 None] [resp 1 1 (Some 101)] [] =
       Inr [''2xx'' \<mapsto> 0, ''3xx'' \<mapsto> 0, ''4xx'' \<mapsto> 0, ''5xx'' \<mapsto> 0]"
  by (simp add: status_distribution_def objects_filter_def status_rows_def status_codes_of_def
      zero_buckets_def responses_where_def req_def resp_def Let_def)

section \<open>Properties of \<open>RequestsView.post\<close>\<close>

lemma get_save: "FiltersManager_get key (FiltersManager_save key d s) = d"
  by (simp add: FiltersManager_get_def FiltersManager_save_def)

lemma get_save_sort_list:
  "FiltersManager_get key (save_sort_list sl s) = FiltersManager_get key s"
  by (simp add: FiltersManager_get_def save_sort_list_def)

lemma stored_filters_post:
  "stored_filters (post json_loads ffr POST s) =
     (if ''clear_filters'' \<in> set (map fst POST) then
        only_keys [''show'', ''view_style''] (stored_filters s)
      else if list_ex (\<lambda>(k, v). prefix ''filter-'' k) POST then
        only_keys [''show'', ''order_by'', ''order_dir'', ''view_style''] (stored_filters s)
          ++ ffr POST
      else
        stored_filters s
          ++ dict_of (filter (\<lambda>(k, v). k \<in> set [''show'', ''order_by'', ''order_dir'', ''view_style''])
                             POST))"
  unfolding stored_filters_def post_def Let_def
  by (simp only: get_save split: if_splits) simp

lemma dict_of_filter:
  "dict_of (filter (\<lambda>(k, v). k \<in> K) items) k = (if k \<in> K then dict_of items k else None)"
  by (induction items) (auto simp add: map_add_def split: option.splits)

lemma dom_dict_of: "dom (dict_of items) = set (map fst items)"
proof (induction items)
  case Nil
  show ?case by simp
next
  case (Cons item items)
  obtain k v where item: "item = (k, v)" by (cases item)
  have "dom (dict_of (item # items)) = dom (dict_of items) \<union> {k}"
    unfolding item dict_of.simps dom_map_add by simp
  then show ?case using Cons.IH by (simp add: item)
qed

lemma dict_of_None: "k \<notin> set (map fst items) \<Longrightarrow> dict_of items k = None"
  using dom_dict_of [of items] by blast

lemma dict_of_Some: "k \<in> set (map fst items) \<Longrightarrow> \<exists>v. dict_of items k = Some v"
  using dom_dict_of [of items] by blast

text \<open>
  Claim C6. When the form has neither \<open>clear_filters\<close> nor a key that starts with
  \<open>filter-\<close>, the save overlays the submitted keys among \<open>show\<close>, \<open>order_by\<close>,
  \<open>order_dir\<close> and \<open>view_style\<close> onto the stored state: such a key gets the submitted
  value, and every other key keeps what it had. Saving \<open>{"show": 50}\<close> over
  \<open>{"order_by": "path", "show": 25}\<close> gives \<open>{"order_by": "path", "show": 50}\<close>.
\<close>

theorem post_merge_update:
  "(''clear_filters'' \<notin> set (map fst POST) \<and> \<not> list_ex (\<lambda>(k, v). prefix ''filter-'' k) POST
      \<longrightarrow> stored_filters (post json_loads ffr POST s) k =
          (if k \<in> set [''show'', ''order_by'', ''order_dir'', ''view_style'']
              \<and> k \<in> set (map fst POST)
           then dict_of POST k else stored_filters s k))
   \<and> stored_filters (post json_loads ffr [(''show'', VInt 50)]
         (session_with [''order_by'' \<mapsto> VStr ''path'', ''show'' \<mapsto> VInt 25])) =
       [''order_by'' \<mapsto> VStr ''path'', ''show'' \<mapsto> VInt 50]"
proof (intro conjI impI)
  assume toolbar: "''clear_filters'' \<notin> set (map fst POST)
      \<and> \<not> list_ex (\<lambda>(k, v). prefix ''filter-'' k) POST"
  let ?K = "set [''show'', ''order_by'', ''order_dir'', ''view_style'']"
  have "stored_filters (post json_loads ffr POST s) k =
      (stored_filters s ++ dict_of (filter (\<lambda>(k, v). k \<in> ?K) POST)) k"
    using toolbar by (simp only: stored_filters_post if_False)
  also have "\<dots> = (if k \<in> ?K \<and> k \<in> set (map fst POST) then dict_of POST k
      else stored_filters s k)"
  proof (cases "k \<in> ?K \<and> k \<in> set (map fst POST)")
    case True
    then obtain v where "dict_of POST k = Some v"
      using dict_of_Some [of k POST] by blast
    with True show ?thesis by (simp only: map_add_def dict_of_filter) simp
  next
    case False
    then have "dict_of (filter (\<lambda>(k, v). k \<in> ?K) POST) k = None"
      using dict_of_None [of k POST] by (simp only: dict_of_filter) auto
    with False show ?thesis by (simp only: map_add_def) simp
  qed
  finally show "stored_filters (post json_loads ffr POST s) k =
      (if k \<in> ?K \<and> k \<in> set (map fst POST) then dict_of POST k else stored_filters s k)" .
next
  show "stored_filters (post json_loads ffr [(''show'', VInt 50)]
         (session_with [''order_by'' \<mapsto> VStr ''path'', ''show'' \<mapsto> VInt 25])) =
       [''order_by'' \<mapsto> VStr ''path'', ''show'' \<mapsto> VInt 50]"
    by (simp add: stored_filters_post)
       (auto simp add: stored_filters_def session_with_def FiltersManager_get_def
          map_add_def fun_eq_iff)
qed

text \<open>
  A form with \<open>view_style\<close> and an unrelated key over a state with a filter \<open>f1\<close>: the
  filter and the page size stay, the view style is the submitted one.
\<close>

theorem post_merge_update_witness:
  "map (stored_filters (post (\<lambda>raw. None) (\<lambda>form. Map.empty)
          [(''view_style'', VStr ''card''), (''page'', VStr ''2'')]
          (session_with [''f1'' \<mapsto> VDict [(''typ'', VStr ''PathFilter'')], ''show'' \<mapsto> VInt 25])))
       [''f1'', ''show'', ''view_style'', ''page''] =
     [Some (VDict [(''typ'', VStr ''PathFilter'')]), Some (VInt 25), Some (VStr ''card''), None]"
  using
    post_merge_update [of "[(''view_style'', VStr ''card''), (''page'', VStr ''2'')]"
      "\<lambda>raw. None" "\<lambda>form. Map.empty"
      "session_with [''f1'' \<mapsto> VDict [(''typ'', VStr ''PathFilter'')], ''show'' \<mapsto> VInt 25]" "''f1''"]
    post_merge_update [of "[(''view_style'', VStr ''card''), (''page'', VStr ''2'')]"
      "\<lambda>raw. None" "\<lambda>form. Map.empty"
      "session_with [''f1'' \<mapsto> VDict [(''typ'', VStr ''PathFilter'')], ''show'' \<mapsto> VInt 25]" "''show''"]
    post_merge_update [of "[(''view_style'', VStr ''card''), (''page'', VStr ''2'')]"
      "\<lambda>raw. None" "\<lambda>form. Map.empty"
      "session_with [''f1'' \<mapsto> VDict [(''typ'', VStr ''PathFilter'')], ''show'' \<mapsto> VInt 25]" "''view_style''"]
    post_merge_update [of "[(''view_style'', VStr ''card''), (''page'', VStr ''2'')]"
      "\<lambda>raw. None" "\<lambda>form. Map.empty"
      "session_with [''f1'' \<mapsto> VDict [(''typ'', VStr ''PathFilter'')], ''show'' \<mapsto> VInt 25]" "''page''"]
  by (simp add: stored_filters_def session_with_def FiltersManager_get_def)

text \<open>
  Claim C10. In every branch of \<open>post\<close>, a key \<open>show\<close> or \<open>view_style\<close> of the stored
  state is still there after the save, with its old value or with a value of the form:
  one submitted under that key, or the one that \<open>filters_from_request\<close> gives under
  that key.
\<close>

theorem post_keeps_display_keys:
  "k \<in> {''show'', ''view_style''} \<Longrightarrow> stored_filters s k = Some v \<Longrightarrow>
     \<exists>v'. stored_filters (post json_loads ffr POST s) k = Some v'
          \<and> (v' = v \<or> dict_of POST k = Some v' \<or> ffr POST k = Some v')"
proof -
  assume k: "k \<in> {''show'', ''view_style''}" and v: "stored_filters s k = Some v"
  let ?K = "set [''show'', ''order_by'', ''order_dir'', ''view_style'']"
  have kK: "k \<in> ?K" using k by auto
  consider (clear) "''clear_filters'' \<in> set (map fst POST)"
    | (form) "''clear_filters'' \<notin> set (map fst POST)"
             "list_ex (\<lambda>(k, v). prefix ''filter-'' k) POST"
    | (toolbar) "''clear_filters'' \<notin> set (map fst POST)"
             "\<not> list_ex (\<lambda>(k, v). prefix ''filter-'' k) POST"
    by blast
  then show ?thesis
  proof cases
    case clear
    then have "stored_filters (post json_loads ffr POST s) k = Some v"
      using k v by (simp only: stored_filters_post if_True) (auto simp add: only_keys_def)
    then show ?thesis by simp
  next
    case form
    then have eq: "stored_filters (post json_loads ffr POST s) k =
        (only_keys [''show'', ''order_by'', ''order_dir'', ''view_style''] (stored_filters s)
           ++ ffr POST) k"
      by (simp only: stored_filters_post if_True if_False)
    show ?thesis
    proof (cases "ffr POST k")
      case None
      then have "stored_filters (post json_loads ffr POST s) k = Some v"
        using kK v unfolding eq map_add_def only_keys_def by simp
      then show ?thesis by simp
    next
      case (Some w)
      then have "stored_filters (post json_loads ffr POST s) k = Some w"
        unfolding eq map_add_def by simp
      then show ?thesis using Some by simp
    qed
  next
    case toolbar
    then have eq: "stored_filters (post json_loads ffr POST s) k =
        (stored_filters s ++ dict_of (filter (\<lambda>(k, v). k \<in> ?K) POST)) k"
      by (simp only: stored_filters_post if_False)
    show ?thesis
    proof (cases "dict_of POST k")
      case None
      then have "stored_filters (post json_loads ffr POST s) k = Some v"
        using kK v unfolding eq map_add_def dict_of_filter by simp
      then show ?thesis by simp
    next
      case (Some w)
      then have "stored_filters (post json_loads ffr POST s) k = Some w"
        using kK unfolding eq map_add_def dict_of_filter by simp
      then show ?thesis using Some by simp
    qed
  qed
qed

text \<open>
  The three branches on a state with page size 25 and a filter: clearing keeps the page
  size and drops the filter; a filter form keeps the page size; the toolbar form
  replaces it by the submitted one.
\<close>

theorem post_keeps_display_keys_witness:
  "(\<exists>v'. stored_filters (post (\<lambda>raw. None) (\<lambda>form. Map.empty) [(''clear_filters'', VStr ''1'')]
            (session_with [''show'' \<mapsto> VInt 25, ''f1'' \<mapsto> VStr ''x''])) ''show'' = Some v')
   \<and> map (stored_filters (post (\<lambda>raw. None) (\<lambda>form. Map.empty) [(''clear_filters'', VStr ''1'')]
            (session_with [''show'' \<mapsto> VInt 25, ''f1'' \<mapsto> VStr ''x''])))
        [''show'', ''f1''] = [Some (VInt 25), None]
   \<and> stored_filters (post (\<lambda>raw. None) (\<lambda>form. [''f2'' \<mapsto> VStr ''y''])
            [(''filter-f2-typ'', VStr ''PathFilter''), (''show'', VStr ''10'')]
            (session_with [''show'' \<mapsto> VInt 25, ''f1'' \<mapsto> VStr ''x''])) ''show'' = Some (VInt 25)
   \<and> stored_filters (post (\<lambda>raw. None) (\<lambda>form. Map.empty) [(''show'', VStr ''10'')]
            (session_with [''show'' \<mapsto> VInt 25, ''f1'' \<mapsto> VStr ''x''])) ''show''
        = Some (VStr ''10'')"
  using post_keeps_display_keys [of "''show''"
      "session_with [''show'' \<mapsto> VInt 25, ''f1'' \<mapsto> VStr ''x'']" "VInt 25"
      "\<lambda>raw. None" "\<lambda>form. Map.empty" "[(''clear_filters'', VStr ''1'')]"]
  by (simp add: stored_filters_post)
     (simp add: stored_filters_def session_with_def FiltersManager_get_def only_keys_def
        map_add_def)

section \<open>Properties of the sort pipeline\<close>

lemma sort_options_lookup:
  "map_of SORT_OPTIONS f =
     (if f = ''start_time'' then Some \<lparr>option_label = ''Recent'', additional_query_filter = None\<rparr>
      else if f = ''path'' then Some \<lparr>option_label = ''Path'', additional_query_filter = None\<rparr>
      else if f = ''num_sql_queries''
        then Some \<lparr>option_label = ''Num. Queries'', additional_query_filter = None\<rparr>
      else if f = ''time_taken''
        then Some \<lparr>option_label = ''Time'', additional_query_filter = Some filter_time_taken\<rparr>
      else if f = ''db_time''
        then Some \<lparr>option_label = ''DB Time'', additional_query_filter = Some filter_db_time\<rparr>
      else None)"
  by (simp add: SORT_OPTIONS_def)

lemma known_fields:
  "map_of SORT_OPTIONS f \<noteq> None \<longleftrightarrow>
     f \<in> {''start_time'', ''path'', ''num_sql_queries'', ''time_taken'', ''db_time''}"
  by (simp add: sort_options_lookup)

lemma apply_sort_loop_known:
  assumes "known_item item"
  shows "apply_sort_loop qs ofs (item # rest) =
     apply_sort_loop (sort_step (item_field item) qs) (ofs @ [order_field item]) rest"
proof -
  have "item_field item \<in> {''start_time'', ''path'', ''num_sql_queries'', ''time_taken'', ''db_time''}"
    using assms by (simp only: known_item_def known_fields)
  then consider "item_field item = ''start_time''" | "item_field item = ''path''"
    | "item_field item = ''num_sql_queries''" | "item_field item = ''time_taken''"
    | "item_field item = ''db_time''" by blast
  then show ?thesis
    by cases
      (simp_all add: Let_def sort_options_lookup sort_step_def order_field_def
        flip: item_field_def)
qed

lemma apply_sort_loop_unknown:
  assumes "\<not> known_item item"
  shows "apply_sort_loop qs ofs (item # rest) = apply_sort_loop qs ofs rest"
  using assms by (simp add: known_item_def Let_def flip: item_field_def)

lemma apply_sort_loop_skips:
  "apply_sort_loop qs ofs sl = apply_sort_loop qs ofs (filter known_item sl)"
proof (induction sl arbitrary: qs ofs)
  case Nil
  show ?case by simp
next
  case (Cons item rest)
  show ?case
  proof (cases "known_item item")
    case True
    show ?thesis
      using True Cons.IH by (simp add: apply_sort_loop_known [OF True] del: apply_sort_loop.simps)
  next
    case False
    show ?thesis
      using False Cons.IH by (simp add: apply_sort_loop_unknown [OF False] del: apply_sort_loop.simps)
  qed
qed

lemma apply_sort_loop_fields:
  "snd (apply_sort_loop qs ofs sl) = ofs @ map order_field (filter known_item sl)"
proof (induction sl arbitrary: qs ofs)
  case Nil
  show ?case by simp
next
  case (Cons item rest)
  show ?case
  proof (cases "known_item item")
    case True
    then show ?thesis
      by (simp add: apply_sort_loop_known [OF True] Cons.IH del: apply_sort_loop.simps)
  next
    case False
    then show ?thesis
      by (simp add: apply_sort_loop_unknown [OF False] Cons.IH del: apply_sort_loop.simps)
  qed
qed

lemma rows_sort_step:
  "rows (sort_step f qs) =
     filter (\<lambda>r. (f = ''time_taken'' \<longrightarrow> gte_0 (time_taken r))
                \<and> (f = ''db_time'' \<longrightarrow> gte_0 (db_time r))) (rows qs)"
  by (simp add: sort_step_def filter_time_taken_def filter_db_time_def)

lemma has_db_time_sort_step:
  "has_db_time (sort_step f qs) = (has_db_time qs \<or> f = ''db_time'')"
  by (simp add: sort_step_def filter_time_taken_def filter_db_time_def)

lemma unknown_item_field:
  "\<not> known_item item \<Longrightarrow> item_field item \<noteq> ''time_taken'' \<and> item_field item \<noteq> ''db_time''"
  by (auto simp add: known_item_def sort_options_lookup)

lemma apply_sort_loop_rows:
  "rows (fst (apply_sort_loop qs ofs sl)) = filter (kept_by_sort sl) (rows qs)"
proof (induction sl arbitrary: qs ofs)
  case Nil
  show ?case by (simp add: kept_by_sort_def)
next
  case (Cons item rest)
  show ?case
  proof (cases "known_item item")
    case True
    have "rows (fst (apply_sort_loop qs ofs (item # rest))) =
        filter (kept_by_sort rest) (rows (sort_step (item_field item) qs))"
      by (simp only: apply_sort_loop_known [OF True] Cons.IH)
    also have "\<dots> = filter (kept_by_sort (item # rest)) (rows qs)"
      unfolding rows_sort_step filter_filter
      by (rule filter_cong) (auto simp add: kept_by_sort_def)
    finally show ?thesis .
  next
    case False
    have "rows (fst (apply_sort_loop qs ofs (item # rest))) = filter (kept_by_sort rest) (rows qs)"
      by (simp only: apply_sort_loop_unknown [OF False] Cons.IH)
    also have "\<dots> = filter (kept_by_sort (item # rest)) (rows qs)"
      using unknown_item_field [OF False]
      by (intro filter_cong) (auto simp add: kept_by_sort_def)
    finally show ?thesis .
  qed
qed

lemma apply_sort_loop_has_db_time:
  "has_db_time (fst (apply_sort_loop qs ofs sl)) =
     (has_db_time qs \<or> ''db_time'' \<in> set (map item_field sl))"
proof (induction sl arbitrary: qs ofs)
  case Nil
  show ?case by simp
next
  case (Cons item rest)
  show ?case
  proof (cases "known_item item")
    case True
    show ?thesis
      by (simp only: apply_sort_loop_known [OF True] Cons.IH has_db_time_sort_step) auto
  next
    case False
    show ?thesis
      using unknown_item_field [OF False]
      by (simp only: apply_sort_loop_unknown [OF False] Cons.IH) auto
  qed
qed

text \<open>A name that the loop adds is one \<open>order_by\<close> can resolve.\<close>

lemma order_term_known:
  assumes "known_item item" and "item_field item = ''db_time'' \<longrightarrow> annotated"
  shows "order_term annotated (order_field item) \<noteq> None"
proof -
  have "item_field item \<in> {''start_time'', ''path'', ''num_sql_queries'', ''time_taken'', ''db_time''}"
    using assms(1) by (simp only: known_item_def known_fields)
  then consider "item_field item = ''start_time''" | "item_field item = ''path''"
    | "item_field item = ''num_sql_queries''" | "item_field item = ''time_taken''"
    | "item_field item = ''db_time''" by blast
  then show ?thesis
    using assms(2)
    by cases (auto simp add: order_field_def order_term_def resolve_field_def)
qed

lemma order_terms_resolve:
  "(\<And>f. f \<in> set fs \<Longrightarrow> order_term annotated f \<noteq> None) \<Longrightarrow> order_terms annotated fs \<noteq> None"
  by (induction fs) (auto split: option.splits)

lemma mset_insert_row: "mset (insert_row ts x ys) = add_mset x (mset ys)"
  by (induction ys) simp_all

lemma mset_order_rows: "mset (order_rows ts xs) = mset xs"
  by (induction xs) (simp_all add: order_rows_def mset_insert_row)

text \<open>\<open>_apply_sort\<close> returns, and its rows are the kept rows of the input in some order.\<close>

lemma apply_sort_returns:
  "\<exists>qs'. apply_sort qs sl = Inr qs' \<and> mset (rows qs') = mset (filter (kept_by_sort sl) (rows qs))"
proof -
  obtain qs1 ofs where loop: "apply_sort_loop qs [] sl = (qs1, ofs)"
    by (cases "apply_sort_loop qs [] sl")
  have ofs: "ofs = map order_field (filter known_item sl)"
    using apply_sort_loop_fields [of qs "[]" sl] loop by simp
  have rows1: "rows qs1 = filter (kept_by_sort sl) (rows qs)"
    using apply_sort_loop_rows [of qs "[]" sl] loop by simp
  have flag: "''db_time'' \<in> set (map item_field sl) \<Longrightarrow> has_db_time qs1"
    using apply_sort_loop_has_db_time [of qs "[]" sl] loop by simp
  show ?thesis
  proof (cases "ofs = []")
    case True
    then show ?thesis by (simp add: apply_sort_def loop rows1)
  next
    case False
    have "order_terms (has_db_time qs1) ofs \<noteq> None"
    proof (rule order_terms_resolve)
      fix f assume "f \<in> set ofs"
      then obtain item where item: "item \<in> set sl" "known_item item" "f = order_field item"
        unfolding ofs by auto
      have "item_field item = ''db_time'' \<longrightarrow> has_db_time qs1"
        using flag item(1) by force
      then show "order_term (has_db_time qs1) f \<noteq> None"
        using order_term_known [OF item(2)] item(3) by simp
    qed
    then obtain ts where "order_terms (has_db_time qs1) ofs = Some ts" by blast
    then show ?thesis
      using False by (simp add: apply_sort_def loop order_by_def rows1 mset_order_rows)
  qed
qed

lemma apply_sort_skips: "apply_sort qs sl = apply_sort qs (filter known_item sl)"
  unfolding apply_sort_def using apply_sort_loop_skips [of qs "[]" sl] by simp

lemma get_objects_sort_list:
  assumes "sl \<noteq> []"
  shows "\<exists>r. get_objects all_requests show ob od p fs (Some sl) = Inr r"
proof -
  obtain qs' where "apply_sort (objects_all all_requests) sl = Inr qs'"
    using apply_sort_returns [of "objects_all all_requests" sl] by blast
  then show ?thesis
    using assms by (simp add: get_objects_def Let_def split: show_arg.splits)
qed

lemma get_objects_legacy:
  "get_objects all_requests show ob od p fs None = Inl RuntimeError
     \<longleftrightarrow> map_of SORT_OPTIONS (or_default ob default_order_by) = None"
proof (cases "map_of SORT_OPTIONS (or_default ob default_order_by) = None")
  case True
  then show ?thesis by (simp add: get_objects_def Let_def)
next
  case False
  obtain qs' where "apply_sort (objects_all all_requests)
      [[''field'' \<mapsto> or_default ob default_order_by, ''dir'' \<mapsto> or_default od default_order_dir]]
      = Inr qs'"
    using apply_sort_returns by blast
  then show ?thesis
    using False by (simp add: get_objects_def Let_def split: show_arg.splits)
qed

text \<open>
  Claim C5, as the code has it. \<open>_apply_sort\<close> never raises: an entry whose field is not a
  key of \<open>SORT_OPTIONS\<close> is skipped, and the result is that of the sort list without such
  entries. \<open>_get_objects\<close> with a sort list that is not empty returns as well. Without a
  sort list, the form with \<open>order_by\<close> and \<open>order_dir\<close> raises \<open>RuntimeError\<close> exactly when
  \<open>order_by\<close> (or the default, when it is empty) is not a key of \<open>SORT_OPTIONS\<close>.
\<close>

theorem unknown_sort_field_skipped:
  "(\<exists>qs'. apply_sort qs sl = Inr qs')
   \<and> apply_sort qs sl = apply_sort qs (filter known_item sl)
   \<and> (sl \<noteq> [] \<longrightarrow> (\<exists>r. get_objects all_requests show ob od p fs (Some sl) = Inr r))
   \<and> (get_objects all_requests show ob od p fs None = Inl RuntimeError
        \<longleftrightarrow> map_of SORT_OPTIONS (or_default ob default_order_by) = None)"
proof (intro conjI impI)
  show "\<exists>qs'. apply_sort qs sl = Inr qs'"
    using apply_sort_returns [of qs sl] by blast
  show "apply_sort qs sl = apply_sort qs (filter known_item sl)"
    by (rule apply_sort_skips)
  show "\<exists>r. get_objects all_requests show ob od p fs (Some sl) = Inr r" if "sl \<noteq> []"
    using that by (rule get_objects_sort_list)
  show "get_objects all_requests show ob od p fs None = Inl RuntimeError
        \<longleftrightarrow> map_of SORT_OPTIONS (or_default ob default_order_by) = None"
    by (rule get_objects_legacy)
qed
text \<open>
  Rows with the paths b, a, a and a sort list that names an unknown field before
  \<open>path\<close>: the unknown entry is skipped and the rows come out by path. A sort list
  with only an unknown field leaves the rows as they are.
\<close>

theorem unknown_sort_field_skipped_witness:
  "map_sum id (\<lambda>q. map request_pk (rows q))
     (apply_sort
        (objects_all [(req 1 None)\<lparr>path := ''/b''\<rparr>, (req 2 None)\<lparr>path := ''/a''\<rparr>, req 3 None])
        [[''field'' \<mapsto> ''bogus''], [''field'' \<mapsto> ''path'', ''dir'' \<mapsto> ''ASC'']])
     = Inr [3, 2, 1]
   \<and> map_sum id (\<lambda>q. map request_pk (rows q))
     (get_objects [req 1 None, req 2 None] ShowNone (Some ''bogus'') None None None
        (Some [[''field'' \<mapsto> ''bogus'']]))
     = Inr [1, 2]"
proof -
  let ?qs = "objects_all [(req 1 None)\<lparr>path := ''/b''\<rparr>, (req 2 None)\<lparr>path := ''/a''\<rparr>, req 3 None]"
  let ?sl = "[[''field'' \<mapsto> ''bogus''], [''field'' \<mapsto> ''path'', ''dir'' \<mapsto> ''ASC'']]"
  have k1: "\<not> known_item [''field'' \<mapsto> ''bogus'']"
    by (simp add: known_item_def item_field_def dict_get_def sort_options_lookup)
  have k2: "known_item [''field'' \<mapsto> ''path'', ''dir'' \<mapsto> ''ASC'']"
    by (simp add: known_item_def item_field_def dict_get_def sort_options_lookup)
  have known: "filter known_item ?sl = [[''field'' \<mapsto> ''path'', ''dir'' \<mapsto> ''ASC'']]"
    using k1 k2 by (simp only: filter.simps if_True if_False)
  have skipped: "apply_sort ?qs ?sl = apply_sort ?qs (filter known_item ?sl)"
    using unknown_sort_field_skipped [of ?qs ?sl] by (rule conjunct2 [THEN conjunct1])
  have sorted_rows: "map_sum id (\<lambda>q. map request_pk (rows q))
      (apply_sort ?qs [[''field'' \<mapsto> ''path'', ''dir'' \<mapsto> ''ASC'']]) = Inr [3, 2, 1]"
    by code_simp
  have with_list: "map_sum id (\<lambda>q. map request_pk (rows q))
     (get_objects [req 1 None, req 2 None] ShowNone (Some ''bogus'') None None None
        (Some [[''field'' \<mapsto> ''bogus'']])) = Inr [1, 2]"
    by code_simp
  show ?thesis
    unfolding skipped known by (rule conjI [OF sorted_rows with_list])
qed

text \<open>
  The claim as stated fails for the form with \<open>order_by\<close> and \<open>order_dir\<close>: an unknown
  \<open>order_by\<close> raises.
\<close>

theorem unknown_order_by_counterexample:
  "get_objects [req 1 None] ShowNone (Some ''bogus'') (Some ''ASC'') None None None
     = Inl RuntimeError"
  by (simp add: get_objects_def Let_def or_default_def sort_options_lookup)

lemma mset_filter_strict:
  assumes "\<exists>x\<in>set xs. \<not> P x"
  shows "mset (filter P xs) \<subset># mset xs"
proof -
  have le: "mset (filter P xs) \<subseteq># mset xs"
    by (simp add: mset_filter)
  have "length (filter P xs) < length xs"
    using assms by (auto intro: length_filter_less)
  then have "mset (filter P xs) \<noteq> mset xs"
    by (metis less_irrefl size_mset)
  with le show ?thesis by (simp add: subset_mset.less_le)
qed

text \<open>
  Claim C9. A sort list that names \<open>time_taken\<close> or \<open>db_time\<close> does not only reorder:
  \<open>_apply_sort\<close> returns the rows that pass the filters of the named fields, in some
  order. With \<open>time_taken\<close> named, every row of the result has a time that is neither
  null nor negative, and the result is a strict part of the input as soon as the input
  has a row whose time is null or negative; the same holds for \<open>db_time\<close> and the sum of
  the times of the queries of a row.
\<close>

theorem sort_by_time_drops_rows:
  "\<exists>qs'. apply_sort qs sl = Inr qs'
     \<and> mset (rows qs') = mset (filter (kept_by_sort sl) (rows qs))
     \<and> (''time_taken'' \<in> set (map item_field sl) \<longrightarrow>
          (\<forall>r\<in>set (rows qs'). gte_0 (time_taken r))
          \<and> ((\<exists>r\<in>set (rows qs). \<not> gte_0 (time_taken r)) \<longrightarrow> mset (rows qs') \<subset># mset (rows qs)))
     \<and> (''db_time'' \<in> set (map item_field sl) \<longrightarrow>
          (\<forall>r\<in>set (rows qs'). gte_0 (db_time r))
          \<and> ((\<exists>r\<in>set (rows qs). \<not> gte_0 (db_time r)) \<longrightarrow> mset (rows qs') \<subset># mset (rows qs)))"
proof -
  obtain qs' where ret: "apply_sort qs sl = Inr qs'"
    and ms: "mset (rows qs') = mset (filter (kept_by_sort sl) (rows qs))"
    using apply_sort_returns [of qs sl] by blast
  have members: "set (rows qs') = {r \<in> set (rows qs). kept_by_sort sl r}"
    using ms by (metis set_filter set_mset_mset)
  have strict: "mset (rows qs') \<subset># mset (rows qs)" if "\<exists>r\<in>set (rows qs). \<not> kept_by_sort sl r"
    unfolding ms using that by (rule mset_filter_strict)
  have tt: "(\<forall>r\<in>set (rows qs'). gte_0 (time_taken r))
      \<and> ((\<exists>r\<in>set (rows qs). \<not> gte_0 (time_taken r)) \<longrightarrow> mset (rows qs') \<subset># mset (rows qs))"
    if "''time_taken'' \<in> set (map item_field sl)"
  proof (intro conjI impI)
    show "\<forall>r\<in>set (rows qs'). gte_0 (time_taken r)"
      using that members by (simp add: kept_by_sort_def)
    assume "\<exists>r\<in>set (rows qs). \<not> gte_0 (time_taken r)"
    then have "\<exists>r\<in>set (rows qs). \<not> kept_by_sort sl r"
      using that by (auto simp add: kept_by_sort_def)
    then show "mset (rows qs') \<subset># mset (rows qs)" by (rule strict)
  qed
  have db: "(\<forall>r\<in>set (rows qs'). gte_0 (db_time r))
      \<and> ((\<exists>r\<in>set (rows qs). \<not> gte_0 (db_time r)) \<longrightarrow> mset (rows qs') \<subset># mset (rows qs))"
    if "''db_time'' \<in> set (map item_field sl)"
  proof (intro conjI impI)
    show "\<forall>r\<in>set (rows qs'). gte_0 (db_time r)"
      using that members by (simp add: kept_by_sort_def)
    assume "\<exists>r\<in>set (rows qs). \<not> gte_0 (db_time r)"
    then have "\<exists>r\<in>set (rows qs). \<not> kept_by_sort sl r"
      using that by (auto simp add: kept_by_sort_def)
    then show "mset (rows qs') \<subset># mset (rows qs)" by (rule strict)
  qed
  show ?thesis
    using ret ms tt db by blast
qed

text \<open>
  Rows with the times 5, null and -1, sorted by \<open>time_taken\<close>: one row is left. The same
  rows sorted by \<open>db_time\<close>, where only the second has a query with a time: that row is
  left.
\<close>

theorem sort_by_time_drops_rows_witness:
  "(\<exists>qs'. apply_sort (objects_all [req 1 (Some 5), req 2 None, req 3 (Some (- 1))])
            [[''field'' \<mapsto> ''time_taken'']] = Inr qs'
        \<and> mset (rows qs') \<subset># mset (rows (objects_all [req 1 (Some 5), req 2 None, req 3 (Some (- 1))])))
   \<and> map_sum id (\<lambda>q. map request_pk (rows q))
     (apply_sort (objects_all [req 1 (Some 5), req 2 None, req 3 (Some (- 1))])
        [[''field'' \<mapsto> ''time_taken'']]) = Inr [1]
   \<and> map_sum id (\<lambda>q. map request_pk (rows q))
     (apply_sort
        (objects_all [req 1 (Some 5),
           (req 2 None)\<lparr>request_queries := [\<lparr>pk = 1, query = ''select 1'', query_time_taken = Some 3\<rparr>]\<rparr>,
           req 3 (Some (- 1))])
        [[''field'' \<mapsto> ''db_time'', ''dir'' \<mapsto> ''ASC'']]) = Inr [2]"
proof -
  let ?qs = "objects_all [req 1 (Some 5), req 2 None, req 3 (Some (- 1))]"
  have named: "''time_taken'' \<in> set (map item_field [[''field'' \<mapsto> ''time_taken'']])"
    by (simp add: item_field_def dict_get_def)
  have "\<not> gte_0 (time_taken (req 2 None))"
    by (simp add: req_def gte_0_def)
  then have dropped: "\<exists>r\<in>set (rows ?qs). \<not> gte_0 (time_taken r)"
    by (simp add: objects_all_def)
  have part: "\<exists>qs'. apply_sort ?qs [[''field'' \<mapsto> ''time_taken'']] = Inr qs'
      \<and> mset (rows qs') \<subset># mset (rows ?qs)"
    using sort_by_time_drops_rows [of ?qs "[[''field'' \<mapsto> ''time_taken'']]"] named dropped
    by blast
  have first: "map_sum id (\<lambda>q. map request_pk (rows q))
      (apply_sort ?qs [[''field'' \<mapsto> ''time_taken'']]) = Inr [1]"
    by code_simp
  have second: "map_sum id (\<lambda>q. map request_pk (rows q))
     (apply_sort
        (objects_all [req 1 (Some 5),
           (req 2 None)\<lparr>request_queries := [\<lparr>pk = 1, query = ''select 1'', query_time_taken = Some 3\<rparr>]\<rparr>,
           req 3 (Some (- 1))])
        [[''field'' \<mapsto> ''db_time'', ''dir'' \<mapsto> ''ASC'']]) = Inr [2]"
    by code_simp
  show ?thesis
    by (rule conjI [OF part conjI [OF first second]])
qed

section \<open>Properties of \<open>detect_n_plus_one\<close>\<close>

lemma set_first_seen: "set (first_seen xs) = set xs"
  by (induction xs) auto

lemma distinct_first_seen: "distinct (first_seen xs)"
  by (induction xs) (auto simp add: set_first_seen)

lemma first_seen_filter: "first_seen (filter P xs) = filter P (first_seen xs)"
proof (induction xs)
  case Nil
  show ?case by simp
next
  case (Cons x xs)
  have "filter (\<lambda>y. y \<noteq> x) (filter P (first_seen xs)) = filter P (filter (\<lambda>y. y \<noteq> x) (first_seen xs))"
    by (simp add: conj_commute)
  moreover have "\<not> P x \<Longrightarrow> filter P (filter (\<lambda>y. y \<noteq> x) (first_seen xs)) = filter P (first_seen xs)"
    by (auto intro: filter_cong)
  ultimately show ?case using Cons.IH by simp
qed

lemma first_seen_snoc:
  "first_seen (xs @ [x]) = (if x \<in> set xs then first_seen xs else first_seen xs @ [x])"
proof (induction xs)
  case Nil
  show ?case by simp
next
  case (Cons y ys)
  show ?case
  proof (cases "x = y")
    case True
    have "filter (\<lambda>z. z \<noteq> y) (first_seen (ys @ [y])) = filter (\<lambda>z. z \<noteq> y) (first_seen ys)"
      using Cons.IH True by (simp split: if_splits)
    then show ?thesis using True by simp
  next
    case False
    then show ?thesis using Cons.IH by simp
  qed
qed

text \<open>\<open>setdefault\<close> and \<open>append\<close> on a dict whose keys are \<open>ks\<close>, each once.\<close>

lemma setdefault_append_present:
  "distinct ks \<Longrightarrow> k \<in> set ks \<Longrightarrow>
     setdefault_append (map (\<lambda>x. (x, f x)) ks) k v =
       map (\<lambda>x. (x, if x = k then f x @ [v] else f x)) ks"
  by (induction ks) auto

lemma setdefault_append_absent:
  "k \<notin> set ks \<Longrightarrow>
     setdefault_append (map (\<lambda>x. (x, f x)) ks) k v = map (\<lambda>x. (x, f x)) ks @ [(k, [v])]"
  by (induction ks) auto

text \<open>The dict after the loop, when it started from the dict of an earlier part.\<close>

lemma fill_buckets_from:
  "fill_buckets (map (\<lambda>fp. (fp, members pre fp)) (fingerprints pre)) qs =
     map (\<lambda>fp. (fp, members (pre @ qs) fp)) (fingerprints (pre @ qs))"
proof (induction qs arbitrary: pre)
  case Nil
  show ?case by simp
next
  case (Cons q qs)
  have step: "setdefault_append (map (\<lambda>fp. (fp, members pre fp)) (fingerprints pre))
        (fingerprint_query (query q)) q =
      map (\<lambda>fp. (fp, members (pre @ [q]) fp)) (fingerprints (pre @ [q]))"
  proof (cases "fp_of q \<in> set (map fp_of pre)")
    case True
    then have "fp_of q \<in> set (fingerprints pre)"
      by (simp add: fingerprints_def set_first_seen)
    then have a: "setdefault_append (map (\<lambda>fp. (fp, members pre fp)) (fingerprints pre)) (fp_of q) q =
        map (\<lambda>fp. (fp, if fp = fp_of q then members pre fp @ [q] else members pre fp))
          (fingerprints pre)"
      by (intro setdefault_append_present) (simp_all add: fingerprints_def distinct_first_seen)
    have b: "map (\<lambda>fp. (fp, if fp = fp_of q then members pre fp @ [q] else members pre fp))
          (fingerprints pre) = map (\<lambda>fp. (fp, members (pre @ [q]) fp)) (fingerprints pre)"
      by (simp add: members_def fp_of_def)
    have c: "fingerprints (pre @ [q]) = fingerprints pre"
      using True by (simp add: fingerprints_def first_seen_snoc)
    have "setdefault_append (map (\<lambda>fp. (fp, members pre fp)) (fingerprints pre)) (fp_of q) q =
        map (\<lambda>fp. (fp, members (pre @ [q]) fp)) (fingerprints (pre @ [q]))"
      by (simp only: a b c)
    then show ?thesis by (simp only: fp_of_def)
  next
    case False
    then have absent: "fp_of q \<notin> set (fingerprints pre)"
      by (simp add: fingerprints_def set_first_seen)
    have none: "members pre (fp_of q) = []"
      using False by (auto simp add: members_def fp_of_def filter_empty_conv image_iff)
    have a: "setdefault_append (map (\<lambda>fp. (fp, members pre fp)) (fingerprints pre)) (fp_of q) q =
        map (\<lambda>fp. (fp, members pre fp)) (fingerprints pre) @ [(fp_of q, [q])]"
      using absent by (rule setdefault_append_absent)
    have b: "map (\<lambda>fp. (fp, members pre fp)) (fingerprints pre) =
        map (\<lambda>fp. (fp, members (pre @ [q]) fp)) (fingerprints pre)"
      using absent by (auto simp add: members_def fp_of_def)
    have c: "[(fp_of q, [q])] = map (\<lambda>fp. (fp, members (pre @ [q]) fp)) [fp_of q]"
      using none by (simp add: members_def fp_of_def)
    have d: "fingerprints (pre @ [q]) = fingerprints pre @ [fp_of q]"
      using False by (simp add: fingerprints_def first_seen_snoc)
    note a
    also have "map (\<lambda>fp. (fp, members pre fp)) (fingerprints pre) @ [(fp_of q, [q])] =
        map (\<lambda>fp. (fp, members (pre @ [q]) fp)) (fingerprints pre)
          @ map (\<lambda>fp. (fp, members (pre @ [q]) fp)) [fp_of q]"
      by (simp only: b c)
    also have "\<dots> = map (\<lambda>fp. (fp, members (pre @ [q]) fp)) (fingerprints (pre @ [q]))"
      by (simp only: d map_append)
    finally show ?thesis by (simp only: fp_of_def)
  qed
  show ?case
    using Cons.IH [of "pre @ [q]"] by (simp add: step)
qed

lemma fill_buckets_groups:
  "fill_buckets [] qs = map (\<lambda>fp. (fp, members qs fp)) (fingerprints qs)"
  using fill_buckets_from [of "[]" qs] by (simp add: fingerprints_def)

lemma members_nonempty: "fp \<in> set (fingerprints qs) \<Longrightarrow> members qs fp \<noteq> []"
  by (auto simp add: fingerprints_def set_first_seen members_def fp_of_def filter_empty_conv)

lemma NPlusOneGroup_nonempty:
  "members qs fp \<noteq> [] \<Longrightarrow> NPlusOneGroup fp (members qs fp) = Inr (group_of qs fp)"
  by (cases "members qs fp") (simp_all add: NPlusOneGroup_def py_index_def group_of_def)

lemma flag_buckets_groups:
  "(\<And>fp. fp \<in> set ks \<Longrightarrow> members qs fp \<noteq> []) \<Longrightarrow>
     flag_buckets threshold (map (\<lambda>fp. (fp, members qs fp)) ks) =
       Inr (map (group_of qs) (filter (\<lambda>fp. int (length (members qs fp)) \<ge> threshold) ks))"
  by (induction ks) (simp_all add: NPlusOneGroup_nonempty)

text \<open>The whole function: it returns, and what the groups are.\<close>

lemma detect_n_plus_one_eq:
  "detect_n_plus_one qs threshold =
     Inr (NPlusOneResult (sort_by_count_desc (map (group_of qs)
       (filter (\<lambda>fp. int (length (members qs fp)) \<ge> threshold) (fingerprints qs)))))"
  unfolding detect_n_plus_one_def fill_buckets_groups
  using flag_buckets_groups [of "fingerprints qs" qs threshold] members_nonempty [of _ qs]
  by simp

lemma group_of_fields:
  "fingerprint (group_of qs fp) = fp"
  "queries (group_of qs fp) = members qs fp"
  "group_count (group_of qs fp) = length (members qs fp)"
  "representative (group_of qs fp) = hd (members qs fp)"
  by (simp_all add: group_of_def)

lemma sort_by_count_desc_ties:
  "filter (\<lambda>g. group_count g = n) (sort_by_count_desc gs) = filter (\<lambda>g. group_count g = n) gs"
proof -
  have "filter (\<lambda>g. - int (group_count g) = - int n) (sort_by_count_desc gs) =
      filter (\<lambda>g. - int (group_count g) = - int n) gs"
    unfolding sort_by_count_desc_def by (rule sort_key_stable)
  then show ?thesis by simp
qed

lemma sort_by_count_desc_sorted:
  "sorted_wrt (\<lambda>a b. group_count a \<ge> group_count b) (sort_by_count_desc gs)"
proof -
  have "sorted (map (\<lambda>g. - int (group_count g)) (sort_by_count_desc gs))"
    unfolding sort_by_count_desc_def by (rule sorted_sort_key)
  then show ?thesis by (simp add: sorted_map)
qed

lemma set_sort_by_count_desc: "set (sort_by_count_desc gs) = set gs"
  by (simp add: sort_by_count_desc_def)

lemma mset_sort_by_count_desc: "mset (sort_by_count_desc gs) = mset gs"
  by (simp add: sort_by_count_desc_def)

text \<open>
  Claim C3. For every list of queries and every threshold, \<open>detect_n_plus_one\<close> returns.
  Its groups have different fingerprints, and a fingerprint has a group exactly when it
  is the fingerprint of at least \<open>threshold\<close> of the queries. The queries of a group are
  the queries with its fingerprint in input order, its count is their number and its
  representative the first of them. The groups are in descending order of count, and the
  groups of one count are in the order in which their fingerprints are first met.
\<close>

theorem detect_n_plus_one_groups:
  "\<exists>res. detect_n_plus_one qs threshold = Inr res
     \<and> distinct (map fingerprint (groups res))
     \<and> set (map fingerprint (groups res)) =
         {fp \<in> set (map fp_of qs). int (length (members qs fp)) \<ge> threshold}
     \<and> (\<forall>g\<in>set (groups res).
           queries g = members qs (fingerprint g) \<and> group_count g = length (queries g)
           \<and> queries g \<noteq> [] \<and> representative g = hd (queries g))
     \<and> sorted_wrt (\<lambda>a b. group_count a \<ge> group_count b) (groups res)
     \<and> (\<forall>n. map fingerprint (filter (\<lambda>g. group_count g = n) (groups res)) =
              filter (\<lambda>fp. int (length (members qs fp)) \<ge> threshold \<and> length (members qs fp) = n)
                (fingerprints qs))"
proof -
  define ks where "ks = filter (\<lambda>fp. int (length (members qs fp)) \<ge> threshold) (fingerprints qs)"
  define gs where "gs = sort_by_count_desc (map (group_of qs) ks)"
  have ret: "detect_n_plus_one qs threshold = Inr (NPlusOneResult gs)"
    by (simp add: detect_n_plus_one_eq gs_def ks_def)
  have groups: "groups (NPlusOneResult gs) = gs"
    by (simp add: NPlusOneResult_def)
  have fps: "map fingerprint (map (group_of qs) ks) = ks"
    by (simp add: comp_def group_of_fields)
  have ks_distinct: "distinct ks"
    by (simp add: ks_def fingerprints_def distinct_first_seen)
  have ks_set: "set ks = {fp \<in> set (map fp_of qs). int (length (members qs fp)) \<ge> threshold}"
    by (auto simp add: ks_def fingerprints_def set_first_seen)
  have "mset (map fingerprint gs) = mset ks"
    using fps by (metis gs_def mset_map mset_sort_by_count_desc)
  then have d: "distinct (map fingerprint gs)" and s: "set (map fingerprint gs) = set ks"
    using ks_distinct by (metis mset_eq_imp_distinct_iff, metis set_mset_mset)
  have each: "queries g = members qs (fingerprint g) \<and> group_count g = length (queries g)
      \<and> queries g \<noteq> [] \<and> representative g = hd (queries g)" if g_in: "g \<in> set gs" for g
  proof -
    obtain fp where fp: "fp \<in> set ks" "g = group_of qs fp"
      using g_in by (auto simp add: gs_def set_sort_by_count_desc)
    have "fp \<in> set (fingerprints qs)" using fp(1) by (simp add: ks_def)
    then have "members qs fp \<noteq> []" by (rule members_nonempty)
    then show ?thesis by (simp add: fp(2) group_of_fields)
  qed
  have order: "sorted_wrt (\<lambda>a b. group_count a \<ge> group_count b) gs"
    unfolding gs_def by (rule sort_by_count_desc_sorted)
  have ties: "map fingerprint (filter (\<lambda>g. group_count g = n) gs) =
      filter (\<lambda>fp. int (length (members qs fp)) \<ge> threshold \<and> length (members qs fp) = n)
        (fingerprints qs)" for n
  proof -
    have "filter (\<lambda>g. group_count g = n) gs =
        map (group_of qs) (filter (\<lambda>fp. length (members qs fp) = n) ks)"
      unfolding gs_def sort_by_count_desc_ties
      by (simp add: filter_map comp_def group_of_fields)
    then have "map fingerprint (filter (\<lambda>g. group_count g = n) gs) =
        filter (\<lambda>fp. length (members qs fp) = n) ks"
      by (simp add: comp_def group_of_fields)
    then show ?thesis by (simp add: ks_def)
  qed
  show ?thesis
  proof (intro exI conjI)
    show "detect_n_plus_one qs threshold = Inr (NPlusOneResult gs)"
      by (rule ret)
    show "distinct (map fingerprint (groups (NPlusOneResult gs)))"
      unfolding groups by (rule d)
    show "set (map fingerprint (groups (NPlusOneResult gs))) =
        {fp \<in> set (map fp_of qs). int (length (members qs fp)) \<ge> threshold}"
      unfolding groups s by (rule ks_set)
    show "\<forall>g\<in>set (groups (NPlusOneResult gs)).
        queries g = members qs (fingerprint g) \<and> group_count g = length (queries g)
        \<and> queries g \<noteq> [] \<and> representative g = hd (queries g)"
      unfolding groups using each by blast
    show "sorted_wrt (\<lambda>a b. group_count a \<ge> group_count b) (groups (NPlusOneResult gs))"
      unfolding groups by (rule order)
    show "\<forall>n. map fingerprint (filter (\<lambda>g. group_count g = n) (groups (NPlusOneResult gs))) =
        filter (\<lambda>fp. int (length (members qs fp)) \<ge> threshold \<and> length (members qs fp) = n)
          (fingerprints qs)"
      unfolding groups using ties by blast
  qed
qed

text \<open>
  Five queries of two shapes: three of the first met shape and two of the other. With
  the threshold 2 both shapes are flagged, the larger group first. Two queries of one
  shape give no group at the threshold 3, three give one.
\<close>

theorem detect_n_plus_one_groups_witness:
  "map_sum id (\<lambda>r. map (\<lambda>g. (fingerprint g, map pk (queries g), group_count g)) (groups r))
     (detect_n_plus_one
        [sq 1 ''select b 1'', sq 2 ''select a 7'', sq 3 ''select a 8'', sq 4 ''select b 2'',
         sq 5 ''select a 9''] 2)
     = Inr [(''select a ?'', [2, 3, 5], 3), (''select b ?'', [1, 4], 2)]
   \<and> map_sum id (\<lambda>r. map fingerprint (groups r))
     (detect_n_plus_one [sq 1 ''SELECT 1'', sq 2 ''SELECT 2''] 3) = Inr []
   \<and> (\<exists>res. detect_n_plus_one [sq 1 ''SELECT 1'', sq 2 ''SELECT 2'', sq 3 ''SELECT 3''] 3 = Inr res
        \<and> set (map fingerprint (groups res)) = {''select ?''})"
proof -
  let ?qs = "[sq 1 ''SELECT 1'', sq 2 ''SELECT 2'', sq 3 ''SELECT 3'']"
  have first: "map_sum id (\<lambda>r. map (\<lambda>g. (fingerprint g, map pk (queries g), group_count g)) (groups r))
     (detect_n_plus_one
        [sq 1 ''select b 1'', sq 2 ''select a 7'', sq 3 ''select a 8'', sq 4 ''select b 2'',
         sq 5 ''select a 9''] 2)
     = Inr [(''select a ?'', [2, 3, 5], 3), (''select b ?'', [1, 4], 2)]"
    by code_simp
  have second: "map_sum id (\<lambda>r. map fingerprint (groups r))
     (detect_n_plus_one [sq 1 ''SELECT 1'', sq 2 ''SELECT 2''] 3) = Inr []"
    by code_simp
  have fp: "map fp_of ?qs = [''select ?'', ''select ?'', ''select ?'']"
    by code_simp
  have m: "length (members ?qs ''select ?'') = 3"
    by code_simp
  have flagged: "{fp \<in> set (map fp_of ?qs). int (length (members ?qs fp)) \<ge> 3} = {''select ?''}"
    unfolding fp using m by auto
  obtain res where res: "detect_n_plus_one ?qs 3 = Inr res"
    and s: "set (map fingerprint (groups res)) =
         {fp \<in> set (map fp_of ?qs). int (length (members ?qs fp)) \<ge> 3}"
    using detect_n_plus_one_groups [of ?qs 3] by blast
  have third: "\<exists>res. detect_n_plus_one ?qs 3 = Inr res
        \<and> set (map fingerprint (groups res)) = {''select ?''}"
    using res s unfolding flagged by blast
  show ?thesis
    by (rule conjI [OF first conjI [OF second third]])
qed

section \<open>Properties of \<open>fingerprint_query\<close>\<close>

subsection \<open>The character classes\<close>

lemma of_char_quote: "of_char quote = (39::nat)"
  by (simp add: quote_def)

lemma of_char_placeholder: "of_char placeholder = (63::nat)"
  by (simp add: placeholder_def)

lemma of_char_dquote: "of_char dquote = (34::nat)"
  by (simp add: dquote_def)

lemma char_eq_iff: "c = d \<longleftrightarrow> (of_char c :: nat) = of_char d"
  by (metis char_of_char)

lemma of_char_less: "(of_char c :: nat) < 256"
  by (metis char_of_char of_char_of mod_less_divisor zero_less_numeral)

lemma digit_is_word: "is_digit c \<Longrightarrow> is_word c"
  by (simp add: is_digit_def is_word_def Let_def)

lemma space_not_word: "is_space c \<Longrightarrow> \<not> is_word c"
  by (auto simp add: is_space_def is_word_def Let_def)

lemma space_not_digit: "is_space c \<Longrightarrow> \<not> is_digit c"
  using digit_is_word space_not_word by blast



lemma dquote_class:
  "\<not> is_word dquote" "\<not> is_digit dquote" "\<not> is_space dquote" "dquote \<noteq> quote"
  by (simp_all add: is_word_def is_digit_def is_space_def of_char_dquote char_eq_iff
      of_char_quote)






lemma lower_char_fixed:
  "lower_char placeholder = placeholder" "lower_char dquote = dquote"
  "lower_char (CHR '' '') = CHR '' ''"
  by (simp_all add: lower_char_def Let_def of_char_placeholder of_char_dquote)


subsection \<open>The replacement of string literals\<close>

lemma sub_strings_no_quote: "quote \<notin> set s \<Longrightarrow> sub_strings s = s"
  by (induction s) auto

lemma dropWhile_to_quote:
  "quote \<notin> set c \<Longrightarrow> dropWhile (\<lambda>x. x \<noteq> quote) (c @ quote # suf) = quote # suf"
  by (induction c) auto


text \<open>A literal: a quote, a text without quote, a quote.\<close>

lemma sub_strings_literal:
  "quote \<notin> set c \<Longrightarrow> sub_strings (quote # c @ quote # suf) = placeholder # sub_strings suf"
  by (simp add: dropWhile_to_quote)


lemma quotes_in_simps:
  "quotes_in [] = 0"
  "quotes_in (c # s) = (if c = quote then Suc (quotes_in s) else quotes_in s)"
  "quotes_in (s @ t) = quotes_in s + quotes_in t"
  by (simp_all add: quotes_in_def)

lemma quotes_in_zero: "quotes_in s = 0 \<longleftrightarrow> quote \<notin> set s"
  by (induction s) (auto simp add: quotes_in_simps)

text \<open>Behind a text with an even number of quotes the scan starts afresh.\<close>

lemma sub_strings_append:
  "even (quotes_in pre) \<Longrightarrow> sub_strings (pre @ r) = sub_strings pre @ sub_strings r"
proof (induction pre rule: sub_strings.induct)
  case 1
  show ?case by simp
next
  case (2 c cs)
  show ?case
  proof (cases "c = quote")
    case False
    then show ?thesis using 2 by (simp add: quotes_in_simps)
  next
    case True
    then have odd: "odd (quotes_in cs)" using 2(4) by (simp add: quotes_in_simps)
    then have "quote \<in> set cs" using quotes_in_zero [of cs] by (cases "quote \<in> set cs") auto
    then obtain c1 rest where cs: "cs = c1 @ quote # rest" "quote \<notin> set c1"
      by (meson split_list_first)
    have dw: "dropWhile (\<lambda>x. x \<noteq> quote) cs = quote # rest"
      unfolding cs(1) using cs(2) by (rule dropWhile_to_quote)
    have "quotes_in c1 = 0" using cs(2) by (simp add: quotes_in_zero)
    then have "even (quotes_in rest)"
      using odd by (simp add: cs(1) quotes_in_simps)
    then have IH: "sub_strings (rest @ r) = sub_strings rest @ sub_strings r"
      using 2(2) [OF True dw] by simp
    have "sub_strings ((c # cs) @ r) = sub_strings (quote # c1 @ quote # (rest @ r))"
      by (simp add: True cs(1))
    also have "\<dots> = placeholder # sub_strings (rest @ r)"
      using cs(2) by (rule sub_strings_literal)
    also have "\<dots> = (placeholder # sub_strings rest) @ sub_strings r"
      by (simp add: IH)
    also have "placeholder # sub_strings rest = sub_strings (quote # c1 @ quote # rest)"
      using cs(2) by (rule sub_strings_literal [symmetric])
    finally show ?thesis by (simp add: True cs(1))
  qed
qed








subsection \<open>The replacement of numbers\<close>

lemma sub_numbers_from_nonword:
  "\<not> is_word z \<Longrightarrow> sub_numbers_from b (z # zs) = z # sub_numbers_from False zs"
  using digit_is_word [of z] by auto

lemma dropWhile_digit_append:
  "\<not> is_digit z \<Longrightarrow> dropWhile is_digit (cs @ z # zs) = dropWhile is_digit cs @ z # zs"
  by (induction cs) auto

text \<open>At a character that is no word character the scan starts afresh.\<close>

lemma sub_numbers_from_split:
  "\<not> is_word z \<Longrightarrow>
     sub_numbers_from b (xs @ z # zs) = sub_numbers_from b xs @ z # sub_numbers_from False zs"
proof (induction b xs rule: sub_numbers_from.induct)
  case (1 b)
  show ?case by (simp only: append_Nil sub_numbers_from_nonword [OF 1] sub_numbers_from.simps(1))
next
  case (2 b c cs)
  have nd: "\<not> is_digit z" using 2(4) digit_is_word by blast
  define rest where "rest = dropWhile is_digit cs"
  have rest': "dropWhile is_digit (cs @ z # zs) = rest @ z # zs"
    unfolding rest_def using nd by (rule dropWhile_digit_append)
  define ok where "ok = (case rest of [] \<Rightarrow> True | d # _ \<Rightarrow> \<not> is_word d)"
  have ok': "(case rest @ z # zs of [] \<Rightarrow> True | d # _ \<Rightarrow> \<not> is_word d) = ok"
    using 2(4) by (cases rest) (simp_all add: ok_def)
  have lhs: "sub_numbers_from b ((c # cs) @ z # zs) =
      (if is_digit c \<and> \<not> b then
         (if ok then placeholder # sub_numbers_from True (rest @ z # zs)
          else c # sub_numbers_from (is_word c) (cs @ z # zs))
       else c # sub_numbers_from (is_word c) (cs @ z # zs))"
    by (simp only: append_Cons sub_numbers_from.simps(2) Let_def rest' ok')
  have rhs: "sub_numbers_from b (c # cs) =
      (if is_digit c \<and> \<not> b then
         (if ok then placeholder # sub_numbers_from True rest
          else c # sub_numbers_from (is_word c) cs)
       else c # sub_numbers_from (is_word c) cs)"
    by (simp only: sub_numbers_from.simps(2) Let_def rest_def [symmetric] ok_def [symmetric])
  show ?case
  proof (cases "is_digit c \<and> \<not> b")
    case match: True
    show ?thesis
    proof (cases ok)
      case True
      have "sub_numbers_from True (rest @ z # zs) =
          sub_numbers_from True rest @ z # sub_numbers_from False zs"
        using 2(1) [OF match rest_def] True 2(4) by (simp add: ok_def)
      then show ?thesis unfolding lhs rhs if_P [OF match] if_P [OF True] by simp
    next
      case False
      have "sub_numbers_from (is_word c) (cs @ z # zs) =
          sub_numbers_from (is_word c) cs @ z # sub_numbers_from False zs"
        using 2(2) [OF match rest_def] False 2(4) by (simp add: ok_def)
      then show ?thesis unfolding lhs rhs if_P [OF match] if_not_P [OF False] by simp
    qed
  next
    case False
    have "sub_numbers_from (is_word c) (cs @ z # zs) =
        sub_numbers_from (is_word c) cs @ z # sub_numbers_from False zs"
      using 2(3) [OF False] 2(4) by simp
    then show ?thesis unfolding lhs rhs if_not_P [OF False] by simp
  qed
qed






subsection \<open>The replacement of whitespace\<close>

lemma dropWhile_space_append:
  "\<not> is_space c \<Longrightarrow> dropWhile is_space (xs @ c # ys) = dropWhile is_space xs @ c # ys"
  by (induction xs) auto

text \<open>At a character that is no whitespace the scan starts afresh.\<close>

lemma sub_whitespace_split:
  "\<not> is_space c \<Longrightarrow>
     sub_whitespace (xs @ c # ys) = sub_whitespace xs @ c # sub_whitespace ys"
proof (induction xs rule: sub_whitespace.induct)
  case 1
  then show ?case by simp
next
  case (2 x xs)
  show ?case
  proof (cases "is_space x")
    case True
    have "sub_whitespace (dropWhile is_space xs @ c # ys) =
        sub_whitespace (dropWhile is_space xs) @ c # sub_whitespace ys"
      using 2(1) [OF True] 2(3) by simp
    then show ?thesis
      using True by (simp add: dropWhile_space_append [OF 2(3)])
  next
    case False
    then show ?thesis using 2(2) [OF False] 2(3) by simp
  qed
qed



subsection \<open>Letter case\<close>










subsection \<open>Texts with the same fingerprint\<close>








subsection \<open>Double-quoted identifiers\<close>

lemma strip_keeps:
  assumes "\<not> is_space a" and "\<not> is_space b"
  shows "\<exists>U' T'. strip (U @ a # V @ b # T) = U' @ a # V @ b # T'"
proof -
  define U1 where "U1 = dropWhile is_space U"
  define T1 where "T1 = rev (dropWhile is_space (rev T))"
  have front: "dropWhile is_space (U @ a # V @ b # T) = U1 @ a # V @ b # T"
    unfolding U1_def using assms(1) by (rule dropWhile_space_append)
  have "rev (U1 @ a # V @ b # T) = rev T @ b # rev (U1 @ a # V)"
    by simp
  then have "dropWhile is_space (rev (U1 @ a # V @ b # T)) =
      dropWhile is_space (rev T) @ b # rev (U1 @ a # V)"
    by (simp only: dropWhile_space_append [OF assms(2)])
  then have "strip (U @ a # V @ b # T) = U1 @ a # V @ b # T1"
    by (simp add: strip_def front T1_def)
  then show ?thesis by blast
qed

lemma sub_numbers_from_no_digit:
  "\<forall>c\<in>set s. \<not> is_digit c \<Longrightarrow> sub_numbers_from b s = s"
  by (induction s arbitrary: b) simp_all

lemma sub_whitespace_no_space: "\<forall>c\<in>set s. \<not> is_space c \<Longrightarrow> sub_whitespace s = s"
  by (induction s) simp_all

text \<open>What the fingerprint makes of a text with a double-quoted part outside literals.\<close>

lemma fingerprint_query_identifier:
  assumes "even (quotes_in pre)" and "quote \<notin> set seg"
  shows "\<exists>U T. fingerprint_query (pre @ dquote # seg @ dquote # suf) =
     U @ dquote # lower (sub_whitespace (sub_numbers seg)) @ dquote # T"
proof -
  let ?m = "dquote # seg @ [dquote]"
  have nq: "quote \<notin> set ?m" using assms(2) dquote_class(4) by auto
  have m: "sub_strings ?m = ?m"
    using nq by (rule sub_strings_no_quote)
  have "quotes_in ?m = 0"
    using nq quotes_in_zero [of ?m] by blast
  then have "even (quotes_in ?m)" by simp
  then have "sub_strings (?m @ suf) = ?m @ sub_strings suf"
    by (simp only: sub_strings_append m)
  then have s: "sub_strings (pre @ dquote # seg @ dquote # suf) =
      sub_strings pre @ dquote # seg @ dquote # sub_strings suf"
    using sub_strings_append [OF assms(1), of "?m @ suf"] by simp
  define A where "A = sub_numbers_from False (sub_strings pre)"
  define B where "B = sub_numbers seg"
  define C where "C = sub_numbers_from False (sub_strings suf)"
  have "sub_numbers_from False (seg @ dquote # sub_strings suf) = B @ dquote # C"
    unfolding B_def C_def sub_numbers_def using dquote_class(1) by (rule sub_numbers_from_split)
  then have n: "sub_numbers (sub_strings (pre @ dquote # seg @ dquote # suf)) =
      A @ dquote # B @ dquote # C"
    unfolding s sub_numbers_def A_def
    by (simp only: sub_numbers_from_split [OF dquote_class(1)])
  have "sub_whitespace (B @ dquote # C) = sub_whitespace B @ dquote # sub_whitespace C"
    using dquote_class(3) by (rule sub_whitespace_split)
  then have w: "sub_whitespace (A @ dquote # B @ dquote # C) =
      sub_whitespace A @ dquote # sub_whitespace B @ dquote # sub_whitespace C"
    by (simp only: sub_whitespace_split [OF dquote_class(3)])
  obtain U' T' where "strip (sub_whitespace A @ dquote # sub_whitespace B @ dquote # sub_whitespace C)
      = U' @ dquote # sub_whitespace B @ dquote # T'"
    using strip_keeps [OF dquote_class(3) dquote_class(3)] by blast
  then have "fingerprint_query (pre @ dquote # seg @ dquote # suf) =
      lower (U' @ dquote # sub_whitespace B @ dquote # T')"
    by (simp only: fingerprint_query_def n w)
  then have "fingerprint_query (pre @ dquote # seg @ dquote # suf) =
      lower U' @ dquote # lower (sub_whitespace B) @ dquote # lower T'"
    by (simp add: lower_def lower_char_fixed)
  then show ?thesis unfolding B_def by blast
qed

text \<open>
  Claim C8, as the code has it. A double-quoted part of the text that stands behind an
  even number of single quotes and has no single quote in it is not replaced by the
  placeholder of the literals; the later steps act on it as on any text: between its
  double quotes the fingerprint has the part with its numbers replaced, its whitespace
  collapsed and its letters in lower case. A part without whitespace, digits and
  capital letters is in the fingerprint as it was.
\<close>

theorem double_quoted_kept_up_to_normalisation:
  "(even (quotes_in pre) \<and> quote \<notin> set seg \<longrightarrow>
      sublist (dquote # lower (sub_whitespace (sub_numbers seg)) @ [dquote])
        (fingerprint_query (pre @ dquote # seg @ dquote # suf)))
   \<and> (even (quotes_in pre)
        \<and> (\<forall>c\<in>set seg. c \<noteq> quote \<and> \<not> is_space c \<and> \<not> is_digit c \<and> lower_char c = c) \<longrightarrow>
      sublist (dquote # seg @ [dquote])
        (fingerprint_query (pre @ dquote # seg @ dquote # suf)))"
proof (intro conjI impI)
  assume h: "even (quotes_in pre) \<and> quote \<notin> set seg"
  then obtain U T where "fingerprint_query (pre @ dquote # seg @ dquote # suf) =
      U @ dquote # lower (sub_whitespace (sub_numbers seg)) @ dquote # T"
    using fingerprint_query_identifier [of pre seg suf] by blast
  then have "fingerprint_query (pre @ dquote # seg @ dquote # suf) =
      U @ (dquote # lower (sub_whitespace (sub_numbers seg)) @ [dquote]) @ T"
    by simp
  then show "sublist (dquote # lower (sub_whitespace (sub_numbers seg)) @ [dquote])
      (fingerprint_query (pre @ dquote # seg @ dquote # suf))"
    unfolding sublist_def by blast
next
  assume h: "even (quotes_in pre)
      \<and> (\<forall>c\<in>set seg. c \<noteq> quote \<and> \<not> is_space c \<and> \<not> is_digit c \<and> lower_char c = c)"
  then have q: "quote \<notin> set seg" by blast
  have "sub_numbers seg = seg"
    unfolding sub_numbers_def using h by (intro sub_numbers_from_no_digit) blast
  moreover have "sub_whitespace seg = seg"
    using h by (intro sub_whitespace_no_space) blast
  moreover have "lower seg = seg"
    unfolding lower_def using h by (intro map_idI) blast
  ultimately have same: "lower (sub_whitespace (sub_numbers seg)) = seg" by simp
  obtain U T where "fingerprint_query (pre @ dquote # seg @ dquote # suf) =
      U @ dquote # lower (sub_whitespace (sub_numbers seg)) @ dquote # T"
    using fingerprint_query_identifier [of pre seg suf] h q by blast
  then have "fingerprint_query (pre @ dquote # seg @ dquote # suf) =
      U @ (dquote # seg @ [dquote]) @ T"
    unfolding same by simp
  then show "sublist (dquote # seg @ [dquote])
      (fingerprint_query (pre @ dquote # seg @ dquote # suf))"
    unfolding sublist_def by blast
qed

text \<open>
  The table name \<open>auth_user\<close> stays as it is; the name \<open>Top 10\<close> comes out in lower case
  and with its number replaced.
\<close>

theorem double_quoted_kept_up_to_normalisation_witness:
  "sublist (dquote # ''auth_user'' @ [dquote])
     (fingerprint_query (''SELECT * FROM '' @ dquote # ''auth_user'' @ dquote # '' WHERE id = 5''))
   \<and> sublist (dquote # ''top ?'' @ [dquote])
     (fingerprint_query (''SELECT * FROM '' @ dquote # ''Top 10'' @ dquote # '' WHERE id = 5''))"
proof -
  have even: "even (quotes_in ''SELECT * FROM '')"
    by (simp add: quotes_in_def quote_def)
  have plain: "\<forall>c\<in>set ''auth_user''. c \<noteq> quote \<and> \<not> is_space c \<and> \<not> is_digit c \<and> lower_char c = c"
    by (simp add: quote_def is_space_def is_digit_def lower_char_def)
  have no_quote: "quote \<notin> set ''Top 10''"
    by (simp add: quote_def)
  have norm: "lower (sub_whitespace (sub_numbers ''Top 10'')) = ''top ?''"
    by code_simp
  have first: "sublist (dquote # ''auth_user'' @ [dquote])
     (fingerprint_query (''SELECT * FROM '' @ dquote # ''auth_user'' @ dquote # '' WHERE id = 5''))"
    using double_quoted_kept_up_to_normalisation
      [of "''SELECT * FROM ''" "''auth_user''" "'' WHERE id = 5''"] even plain
    by blast
  have second: "sublist (dquote # ''top ?'' @ [dquote])
     (fingerprint_query (''SELECT * FROM '' @ dquote # ''Top 10'' @ dquote # '' WHERE id = 5''))"
    using double_quoted_kept_up_to_normalisation
      [of "''SELECT * FROM ''" "''Top 10''" "'' WHERE id = 5''"] even no_quote
    unfolding norm by blast
  show ?thesis by (rule conjI [OF first second])
qed

text \<open>
  The claim as stated fails: the quoted name \<open>Name\<close> is not in the fingerprint, which has
  it in lower case.
\<close>

theorem double_quoted_counterexample:
  "fingerprint_query (''SELECT '' @ dquote # ''Name'' @ dquote # '' FROM t'') =
     ''select '' @ dquote # ''name'' @ dquote # '' from t''
   \<and> \<not> sublist (dquote # ''Name'' @ [dquote])
       (fingerprint_query (''SELECT '' @ dquote # ''Name'' @ dquote # '' FROM t''))"
  by code_simp

end
